theory Spec2Isabelle
  imports Complex_Main
begin

section \<open>Strings of the host language\<close>

text \<open>
  A string is a list of 8-bit code units: the development covers the strings whose
  UTF-16 code units are below 256 (Latin-1), read as \<^typ>\<open>char\<close> by \<^const>\<open>of_char\<close>.
  The library functions of the language that the filter code calls are written out here
  on that range.
\<close>

definition is_space :: "char \<Rightarrow> bool" where
  \<comment> \<open>the class \<open>\s\<close> of a regular expression, which is also what \<open>trim\<close> strips:
      TAB, LF, VT, FF, CR, SP and NBSP\<close>
  "is_space c = (of_char c \<in> {9, 10, 11, 12, 13, 32, 160 :: nat})"

definition trim :: "string \<Rightarrow> string" where
  "trim s = rev (dropWhile is_space (rev (dropWhile is_space s)))"

definition lower_char :: "char \<Rightarrow> char" where
  \<comment> \<open>\<open>toLowerCase\<close> on one code unit: A-Z, and the Latin-1 capitals except the
      multiplication sign\<close>
  "lower_char c =
     (let n = (of_char c :: nat) in
      if (65 \<le> n \<and> n \<le> 90) \<or> (192 \<le> n \<and> n \<le> 222 \<and> n \<noteq> 215) then char_of (n + 32) else c)"

definition toLowerCase :: "string \<Rightarrow> string" where
  "toLowerCase s = map lower_char s"

definition startsWith :: "string \<Rightarrow> string \<Rightarrow> bool" where
  "startsWith s p = (take (length p) s = p)"

definition endsWith :: "string \<Rightarrow> string \<Rightarrow> bool" where
  "endsWith s p = (length p \<le> length s \<and> drop (length s - length p) s = p)"

definition str_includes :: "string \<Rightarrow> char \<Rightarrow> bool" where
  \<comment> \<open>\<open>s.includes(c)\<close> for a one-character needle\<close>
  "str_includes s c = (c \<in> set s)"

definition slice_1_m1 :: "string \<Rightarrow> string" where
  \<comment> \<open>\<open>s.slice(1, -1)\<close>\<close>
  "slice_1_m1 s = butlast (tl s)"

fun double_quotes :: "string \<Rightarrow> string" where
  \<comment> \<open>\<open>s.replace(/'/g, "''")\<close>\<close>
  "double_quotes [] = []"
| "double_quotes (c # cs) =
     (if c = CHR 0x27 then CHR 0x27 # CHR 0x27 # double_quotes cs else c # double_quotes cs)"

fun undouble_quotes :: "string \<Rightarrow> string" where
  \<comment> \<open>\<open>s.replace(/''/g, "'")\<close>: leftmost pairs first\<close>
  "undouble_quotes (c # d # cs) =
     (if c = CHR 0x27 \<and> d = CHR 0x27 then CHR 0x27 # undouble_quotes cs
      else c # undouble_quotes (d # cs))"
| "undouble_quotes cs = cs"

fun split_on :: "char \<Rightarrow> string \<Rightarrow> string list" where
  \<comment> \<open>\<open>s.split(c)\<close>: never empty, \<open>"".split(",")\<close> is \<open>[""]\<close>\<close>
  "split_on c [] = [[]]"
| "split_on c (x # xs) =
     (if x = c then [] # split_on c xs
      else (case split_on c xs of [] \<Rightarrow> [[x]] | y # ys \<Rightarrow> (x # y) # ys))"

fun join :: "string \<Rightarrow> string list \<Rightarrow> string" where
  \<comment> \<open>\<open>xs.join(sep)\<close>\<close>
  "join sep [] = []"
| "join sep [x] = x"
| "join sep (x # y # ys) = x @ sep @ join sep (y # ys)"

section \<open>Numbers of the host language\<close>

text \<open>
  A number is an IEEE 754 double. A finite double is kept as the rational it denotes
  (\<open>Fin q\<close> is a number of the language when \<open>q\<close> is such a rational); the two zeros
  are one value here. \<open>Number(s)\<close> rounds the value of a numeric literal to the nearest
  double, ties to even; \<open>String(x)\<close> prints the shortest decimal that reads back as
  \<open>x\<close>, the nearest to \<open>x\<close> among the shortest.
\<close>

datatype jsnum = NaN | PosInf | NegInf | Fin rat

definition pow2 :: "int \<Rightarrow> rat" where
  "pow2 e = (if 0 \<le> e then 2 ^ nat e else 1 / 2 ^ nat (- e))"

definition pow10 :: "int \<Rightarrow> rat" where
  "pow10 e = (if 0 \<le> e then 10 ^ nat e else 1 / 10 ^ nat (- e))"

fun ndigits :: "nat \<Rightarrow> nat \<Rightarrow> nat" where
  \<comment> \<open>the number of digits of \<open>n\<close> in base \<open>b + 2\<close>\<close>
  "ndigits b n = (if n = 0 then 0 else Suc (ndigits b (n div (b + 2))))"

fun scale_up :: "rat \<Rightarrow> nat \<Rightarrow> rat \<Rightarrow> nat" where
  \<comment> \<open>how many times \<open>q\<close> is multiplied by \<open>b\<close> before it reaches 1, at most the fuel\<close>
  "scale_up b 0 q = 0"
| "scale_up b (Suc fuel) q = (if 1 \<le> q then 0 else Suc (scale_up b fuel (q * b)))"

definition ilog2 :: "rat \<Rightarrow> int" where
  \<comment> \<open>\<open>\<lfloor>log\<^sub>2 q\<rfloor>\<close> for \<open>q > 0\<close>, not below -1022\<close>
  "ilog2 q = (if 1 \<le> q then int (ndigits 0 (nat \<lfloor>q\<rfloor>)) - 1 else - int (scale_up 2 1022 q))"

definition round_half_even :: "rat \<Rightarrow> int" where
  "round_half_even q =
     (let f = \<lfloor>q\<rfloor>; d = q - of_int f in
      if d < 1 / 2 then f else if 1 / 2 < d then f + 1 else if even f then f else f + 1)"

definition round_pos :: "rat \<Rightarrow> rat" where
  \<comment> \<open>the nearest value with a 53-bit significand and exponent at least -1022\<close>
  "round_pos q =
     (let e = max (ilog2 q) (- 1022); u = pow2 (e - 52) in of_int (round_half_even (q / u)) * u)"

definition round_double :: "rat \<Rightarrow> jsnum" where
  "round_double q =
     (if q = 0 then Fin 0
      else if 0 < q then (let r = round_pos q in if 2 ^ 1024 \<le> r then PosInf else Fin r)
      else (let r = round_pos (- q) in if 2 ^ 1024 \<le> r then NegInf else Fin (- r)))"

definition digit_val :: "char \<Rightarrow> nat" where
  "digit_val c =
     (let n = (of_char c :: nat) in
      if 48 \<le> n \<and> n \<le> 57 then n - 48
      else if 97 \<le> n \<and> n \<le> 102 then n - 87
      else if 65 \<le> n \<and> n \<le> 70 then n - 55
      else 16)"

definition is_digit :: "nat \<Rightarrow> char \<Rightarrow> bool" where
  "is_digit b c = (digit_val c < b)"

definition digits_val :: "nat \<Rightarrow> string \<Rightarrow> nat" where
  "digits_val b s = foldl (\<lambda>a c. a * b + digit_val c) 0 s"

definition radix_literal :: "nat \<Rightarrow> string \<Rightarrow> jsnum" where
  "radix_literal b ds =
     (if ds \<noteq> [] \<and> list_all (is_digit b) ds then round_double (of_nat (digits_val b ds)) else NaN)"

definition exponent_part :: "string \<Rightarrow> int option" where
  \<comment> \<open>nothing, or \<open>e\<close>/\<open>E\<close>, an optional sign and at least one digit\<close>
  "exponent_part s =
     (case s of
        [] \<Rightarrow> Some 0
      | c # r \<Rightarrow>
          if c = CHR ''e'' \<or> c = CHR ''E'' then
            (let neg = (take 1 r = ''-'');
                 ds = (if take 1 r = ''-'' \<or> take 1 r = ''+'' then drop 1 r else r)
             in if ds \<noteq> [] \<and> list_all (is_digit 10) ds
                then Some (if neg then - int (digits_val 10 ds) else int (digits_val 10 ds))
                else None)
          else None)"

definition decimal_literal :: "string \<Rightarrow> rat option" where
  \<comment> \<open>the value of an unsigned decimal literal: digits, an optional fraction, an optional
      exponent, with a digit before or after the point\<close>
  "decimal_literal s =
     (let ip = takeWhile (is_digit 10) s; r1 = dropWhile (is_digit 10) s;
          fp = (if take 1 r1 = ''.'' then takeWhile (is_digit 10) (drop 1 r1) else []);
          r2 = (if take 1 r1 = ''.'' then dropWhile (is_digit 10) (drop 1 r1) else r1)
      in if ip = [] \<and> fp = [] then None
         else (case exponent_part r2 of
                 None \<Rightarrow> None
               | Some e \<Rightarrow> Some (of_nat (digits_val 10 (ip @ fp)) * pow10 (e - int (length fp)))))"

definition signed_literal :: "bool \<Rightarrow> string \<Rightarrow> jsnum" where
  "signed_literal neg s =
     (if s = ''Infinity'' then (if neg then NegInf else PosInf)
      else (case decimal_literal s of
              None \<Rightarrow> NaN
            | Some q \<Rightarrow> round_double (if neg then - q else q)))"

definition Number_js :: "string \<Rightarrow> jsnum" where
  \<comment> \<open>\<open>Number(s)\<close> on a string\<close>
  "Number_js s =
     (let t = trim s in
      if t = [] then Fin 0
      else if take 2 t = ''0x'' \<or> take 2 t = ''0X'' then radix_literal 16 (drop 2 t)
      else if take 2 t = ''0o'' \<or> take 2 t = ''0O'' then radix_literal 8 (drop 2 t)
      else if take 2 t = ''0b'' \<or> take 2 t = ''0B'' then radix_literal 2 (drop 2 t)
      else if take 1 t = ''+'' then signed_literal False (drop 1 t)
      else if take 1 t = ''-'' then signed_literal True (drop 1 t)
      else signed_literal False t)"

definition isNaN :: "jsnum \<Rightarrow> bool" where
  "isNaN x = (x = NaN)"

definition isFinite :: "jsnum \<Rightarrow> bool" where
  "isFinite x = (case x of Fin q \<Rightarrow> True | _ \<Rightarrow> False)"

fun digits10 :: "nat \<Rightarrow> string" where
  \<comment> \<open>the decimal digits of a positive number, the empty string for 0\<close>
  "digits10 n = (if n = 0 then [] else digits10 (n div 10) @ [char_of (48 + n mod 10)])"

declare ndigits.simps [simp del] digits10.simps [simp del]

definition show_nat :: "nat \<Rightarrow> string" where
  "show_nat n = (if n = 0 then ''0'' else digits10 n)"

definition ilog10 :: "rat \<Rightarrow> int" where
  \<comment> \<open>the \<open>n\<close> with \<open>10 ^ (n - 1) \<le> q < 10 ^ n\<close>, for a positive double \<open>q\<close>\<close>
  "ilog10 q = (if 1 \<le> q then int (ndigits 8 (nat \<lfloor>q\<rfloor>)) else 1 - int (scale_up 10 400 q))"

definition digit_candidates :: "rat \<Rightarrow> nat \<Rightarrow> int \<Rightarrow> (nat \<times> int) list" where
  \<comment> \<open>the \<open>(s, n)\<close> with \<open>k\<close> digits in \<open>s\<close> and \<open>s * 10 ^ (n - k)\<close> rounding to \<open>x\<close>\<close>
  "digit_candidates x k n0 =
     [(s, n). n \<leftarrow> [n0, n0 + 1],
              s \<leftarrow> remdups [nat \<lfloor>x / pow10 (n - int k)\<rfloor>, nat \<lceil>x / pow10 (n - int k)\<rceil>],
              10 ^ (k - 1) \<le> s \<and> s < 10 ^ k \<and> round_double (of_nat s * pow10 (n - int k)) = Fin x]"

definition closer :: "rat \<Rightarrow> nat \<Rightarrow> (nat \<times> int) \<Rightarrow> (nat \<times> int) \<Rightarrow> (nat \<times> int)" where
  \<comment> \<open>of two candidates the one nearer to \<open>x\<close>, the even one on a tie\<close>
  "closer x k a b =
     (let da = \<bar>of_nat (fst a) * pow10 (snd a - int k) - x\<bar>;
          db = \<bar>of_nat (fst b) * pow10 (snd b - int k) - x\<bar>
      in if da < db then a else if db < da then b else if even (fst a) then a else b)"

fun shortest_digits :: "rat \<Rightarrow> int \<Rightarrow> nat \<Rightarrow> nat \<Rightarrow> nat \<times> nat \<times> int" where
  \<comment> \<open>\<open>(k, s, n)\<close> with \<open>k\<close> as small as possible; seventeen digits always suffice\<close>
  "shortest_digits x n0 k 0 = (k, nat \<lfloor>x / pow10 (n0 - int k)\<rfloor>, n0)"
| "shortest_digits x n0 k (Suc fuel) =
     (case digit_candidates x k n0 of
        [] \<Rightarrow> shortest_digits x n0 (Suc k) fuel
      | c # cs \<Rightarrow> (let (s, n) = foldl (closer x k) c cs in (k, s, n)))"

definition show_pos :: "rat \<Rightarrow> string" where
  \<comment> \<open>\<open>Number::toString\<close> in radix 10 for a positive finite number\<close>
  "show_pos x =
     (let (k, s, n) = shortest_digits x (ilog10 x) 1 17; ds = digits10 s in
      if int k \<le> n \<and> n \<le> 21 then ds @ replicate (nat (n - int k)) CHR ''0''
      else if 0 < n \<and> n \<le> 21 then take (nat n) ds @ ''.'' @ drop (nat n) ds
      else if - 6 < n \<and> n \<le> 0 then ''0.'' @ replicate (nat (- n)) CHR ''0'' @ ds
      else (let ex = (if 0 \<le> n - 1 then ''+'' else ''-'') @ show_nat (nat \<bar>n - 1\<bar>) in
            if k = 1 then ds @ ''e'' @ ex else take 1 ds @ ''.'' @ drop 1 ds @ ''e'' @ ex))"

definition String_js :: "jsnum \<Rightarrow> string" where
  \<comment> \<open>\<open>String(x)\<close> on a number\<close>
  "String_js x =
     (case x of
        NaN \<Rightarrow> ''NaN''
      | PosInf \<Rightarrow> ''Infinity''
      | NegInf \<Rightarrow> ''-Infinity''
      | Fin q \<Rightarrow> if q = 0 then ''0'' else if q < 0 then ''-'' @ show_pos (- q) else show_pos q)"

section \<open>Data model\<close>

text \<open>
  The enumeration \<open>FilterOperator\<close> is a set of strings at run time; the parser checks a
  token against \<open>Object.values(FilterOperator)\<close> and the translator switches on the
  string, so an operator is kept as a string and the members are named constants.
\<close>

definition EQ :: string where "EQ = ''eq''"
definition NE :: string where "NE = ''ne''"
definition GT :: string where "GT = ''gt''"
definition GE :: string where "GE = ''ge''"
definition LT :: string where "LT = ''lt''"
definition LE :: string where "LE = ''le''"
definition CONTAINS :: string where "CONTAINS = ''contains''"
definition STARTSWITH :: string where "STARTSWITH = ''startswith''"
definition ENDSWITH :: string where "ENDSWITH = ''endswith''"
definition IN :: string where "IN = ''in''"
definition NOT_IN :: string where "NOT_IN = ''notIn''"
definition IS_NULL :: string where "IS_NULL = ''isNull''"
definition IS_NOT_NULL :: string where "IS_NOT_NULL = ''isNotNull''"

lemmas FilterOperator_defs =
  EQ_def NE_def GT_def GE_def LT_def LE_def CONTAINS_def STARTSWITH_def ENDSWITH_def
  IN_def NOT_IN_def IS_NULL_def IS_NOT_NULL_def

definition FilterOperator_values :: "string list" where
  \<comment> \<open>\<open>Object.values(FilterOperator)\<close>\<close>
  "FilterOperator_values =
     [EQ, NE, GT, GE, LT, LE, CONTAINS, STARTSWITH, ENDSWITH, IN, NOT_IN, IS_NULL, IS_NOT_NULL]"

text \<open>
  A filter value: \<open>string | number | boolean | string[] | null\<close>. The array case holds
  any values, since the parser's cast of the elements to strings does nothing at run time.
\<close>

datatype jsvalue = VNull | VStr string | VNum jsnum | VBool bool | VArr "jsvalue list"

text \<open>\<open>ODataFilter\<close> and \<open>ParsedFilter\<close> have the same three fields.\<close>

record ParsedFilter =
  prop_f :: string
  operator :: string
  value_f :: jsvalue

abbreviation sq :: char where "sq \<equiv> CHR 0x27"
abbreviation dq :: char where "dq \<equiv> CHR 0x22"
abbreviation bsl :: char where "bsl \<equiv> CHR 0x5C"

fun String_any :: "jsvalue \<Rightarrow> string" where
  \<comment> \<open>\<open>String(v)\<close>, also what a template literal does to \<open>v\<close>; an array prints its
      elements joined by commas, with nothing for \<open>null\<close>\<close>
  "String_any VNull = ''null''"
| "String_any (VStr s) = s"
| "String_any (VNum x) = String_js x"
| "String_any (VBool b) = (if b then ''true'' else ''false'')"
| "String_any (VArr vs) =
     join '','' (map (\<lambda>v. case v of VNull \<Rightarrow> [] | _ \<Rightarrow> String_any v) vs)"

section \<open>Serializer\<close>

definition quoted :: "string \<Rightarrow> string" where
  \<comment> \<open>the template \<open>'${v.replace(/'/g, "''")}'\<close>\<close>
  "quoted s = sq # double_quotes s @ [sq]"

definition format_element :: "jsvalue \<Rightarrow> string" where
  \<comment> \<open>the callback of \<open>value.map\<close> in \<open>formatFilterValue\<close>\<close>
  "format_element v =
     (case v of
        VStr s \<Rightarrow>
          if str_includes s CHR '' '' \<or> str_includes s sq \<or> str_includes s dq then quoted s
          else s
      | _ \<Rightarrow> String_any v)"

definition formatFilterValue :: "jsvalue \<Rightarrow> string" where
  "formatFilterValue v =
     (case v of
        VNull \<Rightarrow> ''null''
      | VArr vs \<Rightarrow> ''('' @ join '', '' (map format_element vs) @ '')''
      | VBool b \<Rightarrow> (if b then ''true'' else ''false'')
      | VStr s \<Rightarrow>
          if str_includes s CHR '' '' \<or> str_includes s sq \<or> str_includes s dq
             \<or> str_includes s CHR ''@''
          then quoted s else s
      | VNum x \<Rightarrow> String_js x)"

definition filterToODataExpression :: "ParsedFilter \<Rightarrow> string" where
  "filterToODataExpression f =
     (if operator f = IS_NULL then prop_f f @ '' isNull''
      else if operator f = IS_NOT_NULL then prop_f f @ '' isNotNull''
      else if operator f = IN \<or> operator f = NOT_IN
        then prop_f f @ '' '' @ operator f @ '' '' @ formatFilterValue (value_f f)
      else prop_f f @ '' '' @ operator f @ '' '' @ formatFilterValue (value_f f))"

datatype logicalOperator = L_and | L_or

fun logical_str :: "logicalOperator \<Rightarrow> string" where
  "logical_str L_and = ''and''"
| "logical_str L_or = ''or''"

definition buildFilterQueryParams :: "ParsedFilter list \<Rightarrow> logicalOperator \<Rightarrow> (string \<rightharpoonup> string)" where
  "buildFilterQueryParams filters lop =
     (if length filters = 0 then Map.empty
      else [''filter'' \<mapsto>
              join ('' '' @ logical_str lop @ '' '') (map filterToODataExpression filters)])"

section \<open>Tokenizer\<close>

record tok_state =
  tokens :: "string list"
  current :: string
  inQuotes :: bool
  quoteChar :: string

definition flush :: "tok_state \<Rightarrow> tok_state" where
  \<comment> \<open>\<open>if (current.trim()) { tokens.push(current.trim()); current = ''; }\<close>\<close>
  "flush st =
     (if trim (current st) \<noteq> [] then st\<lparr>tokens := tokens st @ [trim (current st)], current := []\<rparr>
      else st)"

definition tok_step :: "char option \<Rightarrow> tok_state \<Rightarrow> char \<Rightarrow> tok_state" where
  \<comment> \<open>one round of the loop, on the character and the one before it\<close>
  "tok_step prev st c =
     (if (c = sq \<or> c = dq) \<and> (prev = None \<or> prev \<noteq> Some bsl) then
        (if \<not> inQuotes st then
           (let st1 = flush (st\<lparr>inQuotes := True, quoteChar := [c]\<rparr>)
            in st1\<lparr>current := current st1 @ [c]\<rparr>)
         else if [c] = quoteChar st then
           st\<lparr>inQuotes := False, tokens := tokens st @ [current st @ [c]],
              current := [], quoteChar := []\<rparr>
         else st\<lparr>current := current st @ [c]\<rparr>)
      else if inQuotes st then st\<lparr>current := current st @ [c]\<rparr>
      else if is_space c then flush st
      else if c = CHR ''('' \<or> c = CHR '')'' then
        (let st1 = flush st in st1\<lparr>tokens := tokens st1 @ [[c]]\<rparr>)
      else st\<lparr>current := current st @ [c]\<rparr>)"

fun tok_loop :: "char option \<Rightarrow> tok_state \<Rightarrow> string \<Rightarrow> tok_state" where
  "tok_loop prev st [] = st"
| "tok_loop prev st (c # cs) = tok_loop (Some c) (tok_step prev st c) cs"

definition tokenizeODataExpression :: "string \<Rightarrow> string list" where
  "tokenizeODataExpression expression =
     (let st = flush (tok_loop None \<lparr>tokens = [], current = [], inQuotes = False, quoteChar = []\<rparr>
                       expression)
      in filter (\<lambda>token. length token > 0) (tokens st))"

section \<open>Value parser\<close>

lemma length_split_on_le: "v \<in> set (split_on c s) \<Longrightarrow> length v \<le> length s"
proof (induction s arbitrary: v)
  case Nil
  then show ?case by simp
next
  case (Cons x xs)
  show ?case
  proof (cases "x = c")
    case True
    with Cons show ?thesis by (auto intro: le_SucI)
  next
    case False
    with Cons show ?thesis
      by (cases "split_on c xs") (auto intro: le_SucI)
  qed
qed

lemma length_trim_le: "length (trim s) \<le> length s"
proof -
  have "length (trim s) \<le> length (dropWhile is_space s)"
    unfolding trim_def by (simp add: length_dropWhile_le le_trans[OF length_dropWhile_le])
  also have "\<dots> \<le> length s" by (rule length_dropWhile_le)
  finally show ?thesis .
qed

lemma length_slice_less: "s \<noteq> [] \<Longrightarrow> length (slice_1_m1 s) < length s"
  by (cases s) (auto simp: slice_1_m1_def)

function parseValue :: "string \<Rightarrow> jsvalue" where
  "parseValue token =
     (if token = ''null'' then VNull
      else if (startsWith token [sq] \<and> endsWith token [sq])
              \<or> (startsWith token [dq] \<and> endsWith token [dq])
        then VStr (undouble_quotes (slice_1_m1 token))
      else if startsWith token ''('' \<and> endsWith token '')''
        then VArr (map (\<lambda>v. parseValue (trim v)) (split_on CHR '','' (slice_1_m1 token)))
      else if token = ''true'' then VBool True
      else if token = ''false'' then VBool False
      else if \<not> isNaN (Number_js token) \<and> token \<noteq> [] \<and> isFinite (Number_js token)
        then VNum (Number_js token)
      else VStr token)"
  by pat_completeness auto
termination
proof (relation "measure length", goal_cases)
  case 1
  show ?case by simp
next
  case (2 token v)
  then have ne: "token \<noteq> []" by (auto simp: startsWith_def)
  have "length (trim v) \<le> length v" by (rule length_trim_le)
  also have "\<dots> \<le> length (slice_1_m1 token)" using 2 by (intro length_split_on_le) simp
  also have "\<dots> < length token" using ne by (rule length_slice_less)
  finally show ?case by simp
qed

declare parseValue.simps [simp del]

section \<open>Expression parser\<close>

definition push_filter :: "ParsedFilter list \<Rightarrow> string \<Rightarrow> string \<Rightarrow> string \<Rightarrow> ParsedFilter list" where
  \<comment> \<open>the validation of the operator and the \<open>filters.push\<close> behind it\<close>
  "push_filter filters p oper valueToken =
     (if oper \<in> set FilterOperator_values
      then filters @ [\<lparr>prop_f = p, operator = oper, value_f = parseValue valueToken\<rparr>]
      else filters)"

text \<open>
  The loop of \<open>parseODataExpression\<close> reads \<open>tokens\<close> from the cursor \<open>i\<close>; here the
  argument is the rest of the tokens from \<open>i\<close> on. \<open>i + 2 < tokens.length\<close> says that the
  rest has three tokens, \<open>i + 3 < tokens.length\<close> that it has a fourth one; the inner loop
  stops at the first \<open>)\<close> or at the end, and \<open>i = j + 1\<close> steps over that token.
\<close>

function parse_loop :: "string list \<Rightarrow> ParsedFilter list \<Rightarrow> ParsedFilter list" where
  "parse_loop [] filters = filters"
| "parse_loop (t # ts) filters =
     (if toLowerCase t = ''and'' \<or> toLowerCase t = ''or'' then parse_loop ts filters
      else
        (case ts of
           op # valueToken # rest \<Rightarrow>
             (let oper = toLowerCase op in
              if oper = IN \<or> oper = NOT_IN then
                (if valueToken = ''('' \<and> rest \<noteq> [] then
                   (let arrayValues =
                          filter (\<lambda>x. x \<noteq> '','' \<and> x \<noteq> ''('') (takeWhile (\<lambda>x. x \<noteq> '')'') rest)
                    in parse_loop (drop 1 (dropWhile (\<lambda>x. x \<noteq> '')'') rest))
                         (push_filter filters t oper (''('' @ join '', '' arrayValues @ '')'')))
                 else parse_loop rest (push_filter filters t oper valueToken))
              else parse_loop rest (push_filter filters t oper valueToken))
         | _ \<Rightarrow> parse_loop ts filters))"
  by pat_completeness auto
termination
  by (relation "measure (\<lambda>(ts, filters). length ts)")
     (auto simp: less_Suc_eq_le intro: le_trans[OF diff_le_self] le_trans[OF length_dropWhile_le] le_SucI)

declare parse_loop.simps(2) [simp del]

definition parseODataExpression :: "string \<Rightarrow> ParsedFilter list" where
  "parseODataExpression expression = parse_loop (tokenizeODataExpression expression) []"

section \<open>Query parameter parser\<close>

datatype qvalue = QStr string | QOther
  \<comment> \<open>a value of the query object: a string, or anything that is not a string\<close>

definition match_joiner :: "string \<Rightarrow> string \<Rightarrow> nat option" where
  \<comment> \<open>the length of the match of \<open>/^\s+w\s+/i\<close>, for a lower-case word \<open>w\<close>\<close>
  "match_joiner w s =
     (let ws1 = takeWhile is_space s; r1 = dropWhile is_space s;
          ws2 = takeWhile is_space (drop (length w) r1)
      in if ws1 \<noteq> [] \<and> toLowerCase (take (length w) r1) = w \<and> ws2 \<noteq> []
         then Some (length ws1 + length w + length ws2) else None)"

lemma match_joiner_pos: "match_joiner w s = Some n \<Longrightarrow> 0 < n"
  by (auto simp: match_joiner_def Let_def split: if_splits)

text \<open>
  The splitting loop of \<open>parseFilterQueryParams\<close>, on the text from the cursor on, with
  the parts pushed so far and the segment being collected.
\<close>

function split_loop :: "string \<Rightarrow> string list \<Rightarrow> string \<Rightarrow> string list \<times> string" where
  "split_loop [] parts cur = (parts, cur)"
| "split_loop (c # cs) parts cur =
     (case match_joiner ''and'' (c # cs) of
        Some n \<Rightarrow>
          (if trim cur \<noteq> [] then split_loop (drop n (c # cs)) (parts @ [trim cur, ''AND'']) []
           else split_loop (drop n (c # cs)) parts cur)
      | None \<Rightarrow>
          (case match_joiner ''or'' (c # cs) of
             Some n \<Rightarrow>
               (if trim cur \<noteq> [] then split_loop (drop n (c # cs)) (parts @ [trim cur, ''OR'']) []
                else split_loop (drop n (c # cs)) parts cur)
           | None \<Rightarrow> split_loop cs parts (cur @ [c])))"
  by pat_completeness auto
termination
  by (relation "measure (\<lambda>(s, parts, cur). length s)") (auto dest: match_joiner_pos)

definition split_parts :: "string \<Rightarrow> string list" where
  "split_parts filterExpression =
     (let (parts, cur) = split_loop filterExpression [] []
      in if trim cur \<noteq> [] then parts @ [trim cur] else parts)"

definition parseFilterQueryParams :: "(string \<rightharpoonup> qvalue) \<Rightarrow> ParsedFilter list" where
  "parseFilterQueryParams query =
     (case query ''filter'' of
        Some (QStr filterExpression) \<Rightarrow>
          if filterExpression = [] then []
          else concat (map parseODataExpression
                 (filter (\<lambda>part. part \<noteq> ''AND'' \<and> part \<noteq> ''OR'') (split_parts filterExpression)))
      | _ \<Rightarrow> [])"

section \<open>Predicate translator\<close>

text \<open>
  The translator starts from the object literal \<open>{}\<close>: an object with no own property
  whose prototype is \<open>Object.prototype\<close>. An assignment \<open>where[prop] = v\<close> first looks
  for \<open>prop\<close> among the own properties, and then along the prototypes.

  \<^item> Under the name \<open>__proto__\<close> the prototype \<open>Object.prototype\<close> holds an accessor. The
    assignment runs its setter: the find operator \<open>v\<close>, an object, becomes the prototype
    of \<open>where\<close>, and no own property is made.
  \<^item> Under every other name \<open>Object.prototype\<close> holds nothing or a writable property, so
    while it is the prototype the assignment makes the own property or updates it. An own
    property made this way is writable, and is updated whatever the prototype is.
  \<^item> Once a find operator is the prototype, an assignment to a name that \<open>where\<close> does not
    own is decided by the properties of the find operator and of its class (an accessor
    there takes the value or refuses it). That class is part of the query library, not of
    this code: the translator is given no result for such a sequence of filters.
\<close>

datatype FindOperator =
    IsNull
  | Equal jsvalue
  | Not_op FindOperator
  | MoreThan jsvalue
  | MoreThanOrEqual jsvalue
  | LessThan jsvalue
  | LessThanOrEqual jsvalue
  | Like string
  | In "jsvalue list"

datatype prototype = Object_prototype | Operator FindOperator

record where_obj =
  own :: "string \<rightharpoonup> FindOperator"
  proto :: prototype

datatype outcome = Returns where_obj | Library_decides

definition assign :: "where_obj \<Rightarrow> string \<Rightarrow> FindOperator \<Rightarrow> outcome" where
  \<comment> \<open>the assignment \<open>where[p] = v\<close>\<close>
  "assign w p v =
     (if p = ''__proto__'' then Returns (w\<lparr>proto := Operator v\<rparr>)
      else if proto w = Object_prototype \<or> own w p \<noteq> None
        then Returns (w\<lparr>own := (own w)(p \<mapsto> v)\<rparr>)
      else Library_decides)"

definition where_step :: "where_obj \<Rightarrow> ParsedFilter \<Rightarrow> outcome" where
  \<comment> \<open>the callback of \<open>filters.forEach\<close>: the \<open>switch\<close> on the operator, case by case\<close>
  "where_step w f =
     (let p = prop_f f; v = value_f f in
      if operator f = EQ then (if v = VNull then assign w p IsNull else assign w p (Equal v))
      else if operator f = NE then
        (if v = VNull then assign w p (Not_op IsNull) else assign w p (Not_op (Equal v)))
      else if operator f = GT then assign w p (MoreThan v)
      else if operator f = GE then assign w p (MoreThanOrEqual v)
      else if operator f = LT then assign w p (LessThan v)
      else if operator f = LE then assign w p (LessThanOrEqual v)
      else if operator f = CONTAINS then assign w p (Like (''%'' @ String_any v @ ''%''))
      else if operator f = STARTSWITH then assign w p (Like (String_any v @ ''%''))
      else if operator f = ENDSWITH then assign w p (Like (''%'' @ String_any v))
      else if operator f = IN then
        (case v of VArr xs \<Rightarrow> if length xs > 0 then assign w p (In xs) else Returns w
         | _ \<Rightarrow> Returns w)
      else if operator f = NOT_IN then
        (case v of VArr xs \<Rightarrow> if length xs > 0 then assign w p (Not_op (In xs)) else Returns w
         | _ \<Rightarrow> Returns w)
      else if operator f = IS_NULL then assign w p IsNull
      else if operator f = IS_NOT_NULL then assign w p (Not_op IsNull)
      else assign w p (Equal v))"

definition forEach_step :: "outcome \<Rightarrow> ParsedFilter \<Rightarrow> outcome" where
  \<comment> \<open>one round of \<open>filters.forEach\<close>: the callback runs if the rounds before have
      come back\<close>
  "forEach_step r f = (case r of Returns w \<Rightarrow> where_step w f | Library_decides \<Rightarrow> Library_decides)"

definition convertFiltersToFindOptionsWhere :: "ParsedFilter list \<Rightarrow> outcome" where
  "convertFiltersToFindOptionsWhere filters =
     foldl forEach_step (Returns \<lparr>own = Map.empty, proto = Object_prototype\<rparr>) filters"

section \<open>Predicates of the statements\<close>

definition is_upper :: "char \<Rightarrow> bool" where
  "is_upper c = (65 \<le> (of_char c :: nat) \<and> (of_char c :: nat) \<le> 90)"

definition lower_op :: "ParsedFilter \<Rightarrow> bool" where
  \<comment> \<open>the operator is none of the three members of \<open>FilterOperator\<close> with a capital letter\<close>
  "lower_op f = (operator f \<noteq> NOT_IN \<and> operator f \<noteq> IS_NULL \<and> operator f \<noteq> IS_NOT_NULL)"

definition omitted :: "ParsedFilter \<Rightarrow> bool" where
  \<comment> \<open>the filters for which the translator assigns nothing: \<open>in\<close> or \<open>notIn\<close> with a value
      that is not an array or is the empty array\<close>
  "omitted f =
     ((operator f = IN \<or> operator f = NOT_IN)
      \<and> (case value_f f of VArr xs \<Rightarrow> xs = [] | _ \<Rightarrow> True))"

definition translation :: "ParsedFilter \<Rightarrow> FindOperator option" where
  \<comment> \<open>what the translator stores for a filter on its own, if anything\<close>
  "translation f =
     (case convertFiltersToFindOptionsWhere [f] of
        Returns w \<Rightarrow> own w (prop_f f)
      | Library_decides \<Rightarrow> None)"

definition filter_query :: "(string \<rightharpoonup> string) \<Rightarrow> (string \<rightharpoonup> qvalue)" where
  \<comment> \<open>the query object \<open>{filter: params.filter}\<close>; a field that is \<open>undefined\<close> reads as an
      absent one\<close>
  "filter_query params =
     (case params ''filter'' of None \<Rightarrow> Map.empty | Some e \<Rightarrow> [''filter'' \<mapsto> QStr e])"

definition bare_char :: "char \<Rightarrow> bool" where
  \<comment> \<open>a character that the tokenizer adds to the token it is collecting, outside quotes\<close>
  "bare_char c = (\<not> is_space c \<and> c \<noteq> sq \<and> c \<noteq> dq \<and> c \<noteq> CHR ''('' \<and> c \<noteq> CHR '')'')"

definition bare_word :: "string \<Rightarrow> bool" where
  "bare_word s = (s \<noteq> [] \<and> list_all bare_char s)"

definition is_joiner :: "string \<Rightarrow> bool" where
  "is_joiner s = (toLowerCase s = ''and'' \<or> toLowerCase s = ''or'')"

fun quiet :: "string \<Rightarrow> string \<Rightarrow> bool" where
  \<comment> \<open>neither \<open>/^\s+and\s+/i\<close> nor \<open>/^\s+or\s+/i\<close> matches at a position of \<open>s\<close>,
      when \<open>s\<close> is followed by \<open>y\<close>\<close>
  "quiet [] y = True"
| "quiet (c # cs) y =
     (match_joiner ''and'' (c # cs @ y) = None \<and> match_joiner ''or'' (c # cs @ y) = None
      \<and> quiet cs y)"

definition lower_operators :: "string list" where
  \<comment> \<open>the members of \<open>FilterOperator\<close> that are written in lower case\<close>
  "lower_operators = [EQ, NE, GT, GE, LT, LE, CONTAINS, STARTSWITH, ENDSWITH, IN]"

definition bare_string :: "string \<Rightarrow> bool" where
  \<comment> \<open>a string that is serialized as it is and that the value parser reads as a string:
      one token, no \<open>@\<close>, not a joiner, not a literal of another type\<close>
  "bare_string s =
     (bare_word s \<and> CHR ''@'' \<notin> set s \<and> \<not> is_joiner s
      \<and> s \<noteq> ''null'' \<and> s \<noteq> ''true'' \<and> s \<noteq> ''false'' \<and> \<not> isFinite (Number_js s))"

definition quotable_string :: "string \<Rightarrow> bool" where
  \<comment> \<open>a string that is serialized in quotes and read back: it has a space, a double quote
      or \<open>@\<close>, no single quote, and no match of the two joiner patterns\<close>
  "quotable_string s =
     ((CHR '' '' \<in> set s \<or> dq \<in> set s \<or> CHR ''@'' \<in> set s) \<and> sq \<notin> set s \<and> quiet s [])"

definition num_survives :: "jsnum \<Rightarrow> bool" where
  \<comment> \<open>a finite number whose printed form is one token and reads back as the number\<close>
  "num_survives x = (isFinite x \<and> bare_word (String_js x) \<and> Number_js (String_js x) = x)"

definition plain_value :: "jsvalue \<Rightarrow> bool" where
  "plain_value v =
     (case v of
        VNull \<Rightarrow> True
      | VBool b \<Rightarrow> True
      | VNum x \<Rightarrow> num_survives x
      | VStr s \<Rightarrow> bare_string s \<or> quotable_string s
      | VArr vs \<Rightarrow> False)"

definition plain_filter :: "ParsedFilter \<Rightarrow> bool" where
  "plain_filter f =
     (bare_word (prop_f f) \<and> \<not> is_joiner (prop_f f) \<and> operator f \<in> set lower_operators
      \<and> plain_value (value_f f))"

definition dec_char :: "char \<Rightarrow> bool" where
  \<comment> \<open>a decimal digit or the decimal point\<close>
  "dec_char c = (is_digit 10 c \<or> c = CHR ''.'')"

definition marker :: "logicalOperator \<Rightarrow> string" where
  \<comment> \<open>what the splitting loop pushes between two parts\<close>
  "marker lop = (case lop of L_and \<Rightarrow> ''AND'' | L_or \<Rightarrow> ''OR'')"

definition well_separated :: "string \<Rightarrow> bool" where
  \<comment> \<open>a segment that the splitting loop hands on as it is: trimmed, not a marker, and
      without a match of a joiner pattern up to its end, whatever follows a space\<close>
  "well_separated e =
     (e \<noteq> [] \<and> \<not> is_space (hd e) \<and> trim e = e \<and> e \<noteq> ''AND'' \<and> e \<noteq> ''OR''
      \<and> (\<forall>y. y = [] \<or> is_space (hd y) \<longrightarrow> quiet e y))"

section \<open>Operators the parser can return\<close>

lemma of_char_less_256: "(of_char c :: nat) < 256"
proof -
  have "(of_char c :: nat) mod 256 = of_char c" by (rule of_char_mod_256)
  moreover have "(of_char c :: nat) mod 256 < 256" by simp
  ultimately show ?thesis by simp
qed

lemma lower_char_not_upper: "\<not> is_upper (lower_char c)"
  using of_char_less_256 [of c]
  by (auto simp: is_upper_def lower_char_def Let_def)

lemma toLowerCase_no_upper: "c \<in> set (toLowerCase s) \<Longrightarrow> \<not> is_upper c"
  by (auto simp: toLowerCase_def lower_char_not_upper)

lemma toLowerCase_neq_camel:
  "toLowerCase s \<noteq> NOT_IN" "toLowerCase s \<noteq> IS_NULL" "toLowerCase s \<noteq> IS_NOT_NULL"
proof -
  have "is_upper CHR ''I''" "is_upper CHR ''N''" by (simp_all add: is_upper_def)
  moreover have "CHR ''I'' \<in> set NOT_IN" "CHR ''N'' \<in> set IS_NULL" "CHR ''N'' \<in> set IS_NOT_NULL"
    by (simp_all add: FilterOperator_defs)
  ultimately show "toLowerCase s \<noteq> NOT_IN" "toLowerCase s \<noteq> IS_NULL" "toLowerCase s \<noteq> IS_NOT_NULL"
    using toLowerCase_no_upper by metis+
qed

lemma push_filter_lower:
  "list_all lower_op filters \<Longrightarrow> list_all lower_op (push_filter filters p (toLowerCase x) v)"
  by (simp add: push_filter_def lower_op_def toLowerCase_neq_camel)

lemma parse_loop_triplet:
  assumes "\<not> (toLowerCase t = ''and'' \<or> toLowerCase t = ''or'')"
  shows "\<exists>rest' w. length rest' \<le> length rest \<and>
           parse_loop (t # op # v # rest) filters =
             parse_loop rest' (push_filter filters t (toLowerCase op) w)"
proof (cases "(toLowerCase op = IN \<or> toLowerCase op = NOT_IN) \<and> v = ''('' \<and> rest \<noteq> []")
  case True
  let ?rest' = "drop 1 (dropWhile (\<lambda>x. x \<noteq> '')'') rest)"
  have "length ?rest' \<le> length rest"
    by (simp add: le_trans [OF diff_le_self length_dropWhile_le])
  moreover have "parse_loop (t # op # v # rest) filters =
      parse_loop ?rest' (push_filter filters t (toLowerCase op)
        (''('' @ join '', '' (filter (\<lambda>x. x \<noteq> '','' \<and> x \<noteq> ''('')
           (takeWhile (\<lambda>x. x \<noteq> '')'') rest)) @ '')''))"
    using assms True by (simp add: parse_loop.simps(2) Let_def)
  ultimately show ?thesis by blast
next
  case False
  then have "parse_loop (t # op # v # rest) filters =
      parse_loop rest (push_filter filters t (toLowerCase op) v)"
    using assms by (auto simp: parse_loop.simps(2) Let_def)
  then show ?thesis by blast
qed

lemma parse_loop_skip:
  assumes "toLowerCase t = ''and'' \<or> toLowerCase t = ''or'' \<or> length ts < 2"
  shows "parse_loop (t # ts) filters = parse_loop ts filters"
proof (cases "toLowerCase t = ''and'' \<or> toLowerCase t = ''or''")
  case True
  then show ?thesis by (simp add: parse_loop.simps(2))
next
  case False
  with assms have "length ts < 2" by blast
  then have "ts = [] \<or> (\<exists>x. ts = [x])"
    by (cases ts) (auto simp: length_Suc_conv)
  with False show ?thesis by (auto simp: parse_loop.simps(2))
qed

lemma parse_loop_lower:
  "list_all lower_op filters \<Longrightarrow> list_all lower_op (parse_loop ts filters)"
proof (induction "length ts" arbitrary: ts filters rule: less_induct)
  case less
  show ?case
  proof (cases ts)
    case Nil
    with less.prems show ?thesis by simp
  next
    case (Cons t ts')
    show ?thesis
    proof (cases "toLowerCase t = ''and'' \<or> toLowerCase t = ''or'' \<or> length ts' < 2")
      case True
      then have "parse_loop ts filters = parse_loop ts' filters"
        unfolding Cons by (rule parse_loop_skip)
      with less Cons show ?thesis by simp
    next
      case False
      then obtain op v rest where ts': "ts' = op # v # rest"
        by (cases ts'; cases "tl ts'") auto
      from False parse_loop_triplet [of t rest op v filters]
      obtain rest' w where r: "length rest' \<le> length rest"
        "parse_loop ts filters = parse_loop rest' (push_filter filters t (toLowerCase op) w)"
        unfolding Cons ts' by blast
      have "list_all lower_op (parse_loop rest' (push_filter filters t (toLowerCase op) w))"
        using r(1) less.prems by (intro less.hyps push_filter_lower) (simp_all add: Cons ts')
      with r(2) show ?thesis by simp
    qed
  qed
qed

text \<open>
  C4. Whatever the query, no descriptor that \<open>parseFilterQueryParams\<close> returns has the
  operator \<open>notIn\<close>, \<open>isNull\<close> or \<open>isNotNull\<close>: the operator of a descriptor is a
  lower-cased token, and each of the three names has a capital letter.
\<close>

theorem parser_never_yields_camel_case_operators:
  "\<forall>f \<in> set (parseFilterQueryParams query).
     operator f \<noteq> NOT_IN \<and> operator f \<noteq> IS_NULL \<and> operator f \<noteq> IS_NOT_NULL"
proof -
  have "list_all lower_op (parseODataExpression e)" for e
    unfolding parseODataExpression_def by (rule parse_loop_lower) simp
  then have "list_all lower_op (parseFilterQueryParams query)"
    by (auto simp: parseFilterQueryParams_def list_all_iff split: option.splits qvalue.splits)
  then show ?thesis
    by (simp add: list_all_iff lower_op_def)
qed

theorem parser_never_yields_camel_case_operators_witness:
  "\<lparr>prop_f = ''d'', operator = EQ, value_f = VStr ''z''\<rparr>
     \<in> set (parseFilterQueryParams [''filter'' \<mapsto> QStr ''a notIn (x) and b isNull c and d eq z''])
   \<and> EQ \<noteq> NOT_IN \<and> EQ \<noteq> IS_NULL \<and> EQ \<noteq> IS_NOT_NULL"
proof -
  have m: "\<lparr>prop_f = ''d'', operator = EQ, value_f = VStr ''z''\<rparr>
     \<in> set (parseFilterQueryParams [''filter'' \<mapsto> QStr ''a notIn (x) and b isNull c and d eq z''])"
    by code_simp
  from bspec [OF parser_never_yields_camel_case_operators m] m show ?thesis
    by simp
qed

section \<open>The predicate mapping\<close>

lemma convert_snoc:
  "convertFiltersToFindOptionsWhere (fs @ [f]) = forEach_step (convertFiltersToFindOptionsWhere fs) f"
  by (simp add: convertFiltersToFindOptionsWhere_def)

lemma convert_append:
  "convertFiltersToFindOptionsWhere (fs @ gs) = foldl forEach_step (convertFiltersToFindOptionsWhere fs) gs"
  by (simp add: convertFiltersToFindOptionsWhere_def)

lemma convert_snoc_Returns:
  assumes "convertFiltersToFindOptionsWhere (fs @ [f]) = Returns w"
  obtains w0 where "convertFiltersToFindOptionsWhere fs = Returns w0" "where_step w0 f = Returns w"
  using assms by (cases "convertFiltersToFindOptionsWhere fs") (simp_all add: convert_snoc forEach_step_def)

lemma where_step_omitted: "omitted f \<Longrightarrow> where_step w f = Returns w"
  by (auto simp: omitted_def where_step_def FilterOperator_defs Let_def split: jsvalue.splits)

lemma forEach_step_omitted: "omitted f \<Longrightarrow> forEach_step r f = r"
  by (cases r) (simp_all add: forEach_step_def where_step_omitted)

lemma assign_plain:
  "p \<noteq> ''__proto__'' \<Longrightarrow> proto w = Object_prototype \<Longrightarrow>
     assign w p v = Returns (w\<lparr>own := (own w)(p \<mapsto> v)\<rparr>)"
  by (simp add: assign_def)

lemma assign_own:
  "assign w p v = Returns w' \<Longrightarrow>
     own w' = (if p = ''__proto__'' then own w else (own w)(p \<mapsto> v))"
  by (auto simp: assign_def split: if_splits)

lemma where_step_assigns:
  assumes "\<not> omitted f" "prop_f f \<noteq> ''__proto__''"
  shows "where_step w f = assign w (prop_f f) (the (translation f))"
  using assms
  unfolding translation_def convertFiltersToFindOptionsWhere_def omitted_def
  by (auto simp: forEach_step_def where_step_def assign_def FilterOperator_defs Let_def
      split: jsvalue.splits)

lemma translation_Some:
  assumes "\<not> omitted f" "prop_f f \<noteq> ''__proto__''"
  shows "translation f = Some (the (translation f))"
proof -
  let ?e = "\<lparr>own = Map.empty, proto = Object_prototype\<rparr>"
  define v where "v = the (translation f)"
  have "where_step ?e f = Returns (?e\<lparr>own := (own ?e)(prop_f f \<mapsto> v)\<rparr>)"
    using assms unfolding v_def by (simp add: where_step_assigns assign_plain)
  then have "translation f = Some v"
    by (simp add: translation_def convertFiltersToFindOptionsWhere_def forEach_step_def)
  then show ?thesis by simp
qed

lemma where_step_proto:
  assumes "prop_f f = ''__proto__''" "where_step w f = Returns w'"
  shows "own w' = own w"
  using assms
  by (auto simp: where_step_def assign_def Let_def split: if_splits jsvalue.splits)

lemma where_step_plain:
  assumes "prop_f f \<noteq> ''__proto__''" "proto w = Object_prototype"
  shows "\<exists>w'. where_step w f = Returns w' \<and> proto w' = Object_prototype"
  using assms
  by (auto simp: where_step_def assign_def Let_def split: if_splits jsvalue.splits)

lemma where_step_unknown:
  "operator f \<notin> set FilterOperator_values \<Longrightarrow> where_step w f = assign w (prop_f f) (Equal (value_f f))"
  by (simp add: where_step_def FilterOperator_values_def Let_def)

lemma convert_lookup:
  "convertFiltersToFindOptionsWhere fs = Returns w \<Longrightarrow>
   own w p =
     (if p = ''__proto__'' then None
      else let gs = filter (\<lambda>f. prop_f f = p \<and> \<not> omitted f) fs
           in if gs = [] then None else translation (last gs))"
proof (induction fs arbitrary: w rule: rev_induct)
  case Nil
  then show ?case by (auto simp: convertFiltersToFindOptionsWhere_def)
next
  case (snoc f fs)
  from snoc.prems obtain w0
    where w0: "convertFiltersToFindOptionsWhere fs = Returns w0" and st: "where_step w0 f = Returns w"
    by (rule convert_snoc_Returns)
  note IH = snoc.IH [OF w0]
  show ?case
  proof (cases "omitted f")
    case True
    with st have "w = w0" by (simp add: where_step_omitted)
    with IH True show ?thesis by simp
  next
    case False
    note prod = this
    show ?thesis
    proof (cases "prop_f f = ''__proto__''")
      case True
      then have "own w = own w0" using st by (rule where_step_proto)
      with IH True show ?thesis by auto
    next
      case False
      from st have "assign w0 (prop_f f) (the (translation f)) = Returns w"
        by (simp add: where_step_assigns [OF prod False])
      then have ow: "own w = (own w0)(prop_f f \<mapsto> the (translation f))"
        using False by (auto dest: assign_own)
      show ?thesis
      proof (cases "prop_f f = p")
        case True
        have "own w p = Some (the (translation f))" using ow True by simp
        also have "\<dots> = translation f" using translation_Some [OF prod False] by simp
        finally show ?thesis using prod True False by simp
      next
        case False
        with IH ow prod show ?thesis by (simp add: Let_def)
      qed
    qed
  qed
qed

lemma convert_returns:
  "''__proto__'' \<notin> prop_f ` set fs \<Longrightarrow>
     \<exists>w. convertFiltersToFindOptionsWhere fs = Returns w \<and> proto w = Object_prototype"
proof (induction fs rule: rev_induct)
  case Nil
  show ?case by (simp add: convertFiltersToFindOptionsWhere_def)
next
  case (snoc f fs)
  then obtain w0 where w0: "convertFiltersToFindOptionsWhere fs = Returns w0" "proto w0 = Object_prototype"
    by auto
  from snoc.prems have np: "prop_f f \<noteq> ''__proto__''" by auto
  from where_step_plain [OF np w0(2)] w0(1) show ?case
    by (simp add: convert_snoc forEach_step_def)
qed

lemma convert_dom:
  assumes "convertFiltersToFindOptionsWhere fs = Returns w"
  shows "dom (own w) \<subseteq> prop_f ` set fs"
proof
  fix q assume "q \<in> dom (own w)"
  then have "filter (\<lambda>f. prop_f f = q \<and> \<not> omitted f) fs \<noteq> []"
    by (auto simp: convert_lookup [OF assms, of q] Let_def split: if_splits)
  then show "q \<in> prop_f ` set fs"
    by (auto simp: filter_empty_conv)
qed

text \<open>
  C5, as amended. For a sequence in which no filter has the prop \<open>__proto__\<close> the
  translator returns the mapping. In a mapping it returns, the keys are property names
  of the filters, nothing is stored under \<open>__proto__\<close>, and the entry for any other
  property is the translation of the last filter on that property that yields a
  predicate. A filter that yields none (\<open>in\<close> or \<open>notIn\<close> with a value that is not an
  array or is empty) overwrites nothing: the entry of an earlier filter stays.
\<close>

theorem last_producing_filter_wins:
  "(''__proto__'' \<notin> prop_f ` set fs \<longrightarrow> (\<exists>w. convertFiltersToFindOptionsWhere fs = Returns w))
   \<and> (convertFiltersToFindOptionsWhere fs = Returns w \<longrightarrow>
        (\<forall>p. own w p =
           (if p = ''__proto__'' then None
            else let gs = filter (\<lambda>f. prop_f f = p \<and> \<not> omitted f) fs
                 in if gs = [] then None else translation (last gs)))
        \<and> dom (own w) \<subseteq> prop_f ` set fs)"
proof (intro conjI impI allI)
  assume "''__proto__'' \<notin> prop_f ` set fs"
  then show "\<exists>w. convertFiltersToFindOptionsWhere fs = Returns w"
    using convert_returns by blast
next
  fix p
  assume "convertFiltersToFindOptionsWhere fs = Returns w"
  then show "own w p =
           (if p = ''__proto__'' then None
            else let gs = filter (\<lambda>f. prop_f f = p \<and> \<not> omitted f) fs
                 in if gs = [] then None else translation (last gs))"
    by (rule convert_lookup)
next
  assume "convertFiltersToFindOptionsWhere fs = Returns w"
  then show "dom (own w) \<subseteq> prop_f ` set fs"
    by (rule convert_dom)
qed

theorem last_producing_filter_wins_witness:
  "''__proto__'' \<notin> prop_f ` set
       [\<lparr>prop_f = ''age'', operator = GT, value_f = VNum (Fin 18)\<rparr>,
        \<lparr>prop_f = ''role'', operator = IN, value_f = VStr ''admin''\<rparr>,
        \<lparr>prop_f = ''age'', operator = LT, value_f = VNum (Fin 65)\<rparr>,
        \<lparr>prop_f = ''age'', operator = NOT_IN, value_f = VArr []\<rparr>]
   \<and> convertFiltersToFindOptionsWhere
       [\<lparr>prop_f = ''age'', operator = GT, value_f = VNum (Fin 18)\<rparr>,
        \<lparr>prop_f = ''role'', operator = IN, value_f = VStr ''admin''\<rparr>,
        \<lparr>prop_f = ''age'', operator = LT, value_f = VNum (Fin 65)\<rparr>,
        \<lparr>prop_f = ''age'', operator = NOT_IN, value_f = VArr []\<rparr>]
      = Returns \<lparr>own = [''age'' \<mapsto> LessThan (VNum (Fin 65))], proto = Object_prototype\<rparr>
   \<and> [''age'' \<mapsto> LessThan (VNum (Fin 65))] ''age''
      = translation \<lparr>prop_f = ''age'', operator = LT, value_f = VNum (Fin 65)\<rparr>
   \<and> [''age'' \<mapsto> LessThan (VNum (Fin 65))] ''role'' = None
   \<and> dom [''age'' \<mapsto> LessThan (VNum (Fin 65))] \<subseteq> {''age'', ''role''}"
proof -
  let ?F = "[\<lparr>prop_f = ''age'', operator = GT, value_f = VNum (Fin 18)\<rparr>,
        \<lparr>prop_f = ''role'', operator = IN, value_f = VStr ''admin''\<rparr>,
        \<lparr>prop_f = ''age'', operator = LT, value_f = VNum (Fin 65)\<rparr>,
        \<lparr>prop_f = ''age'', operator = NOT_IN, value_f = VArr []\<rparr>]"
  let ?W = "\<lparr>own = [''age'' \<mapsto> LessThan (VNum (Fin 65))], proto = Object_prototype\<rparr>"
  have n: "''__proto__'' \<notin> prop_f ` set ?F" by simp
  have c: "convertFiltersToFindOptionsWhere ?F = Returns ?W"
    by (simp add: convertFiltersToFindOptionsWhere_def forEach_step_def where_step_def
        assign_def FilterOperator_defs)
  from last_producing_filter_wins [of ?F ?W] c
  have e: "\<And>p. own ?W p =
           (if p = ''__proto__'' then None
            else let gs = filter (\<lambda>f. prop_f f = p \<and> \<not> omitted f) ?F
                 in if gs = [] then None else translation (last gs))"
    and d: "dom (own ?W) \<subseteq> prop_f ` set ?F"
    by blast+
  have 1: "[''age'' \<mapsto> LessThan (VNum (Fin 65))] ''age''
      = translation \<lparr>prop_f = ''age'', operator = LT, value_f = VNum (Fin 65)\<rparr>"
    using e [of "''age''"] by (simp add: omitted_def FilterOperator_defs)
  have 2: "[''age'' \<mapsto> LessThan (VNum (Fin 65))] ''role'' = None"
    using e [of "''role''"] by (simp add: omitted_def FilterOperator_defs)
  have 3: "dom [''age'' \<mapsto> LessThan (VNum (Fin 65))] \<subseteq> {''age'', ''role''}"
    using d by simp
  from n c 1 2 3 show ?thesis by blast
qed

text \<open>
  C5 as stated fails: for \<open>p eq 1\<close> followed by \<open>p in x\<close> the entry for \<open>p\<close> is the
  predicate of the first filter, while the last filter on \<open>p\<close> stores nothing on its
  own. And for two filters on \<open>__proto__\<close> there is no entry at all: the predicate of the
  last one is the prototype of the object.
\<close>

theorem last_filter_counterexample:
  "convertFiltersToFindOptionsWhere
     [\<lparr>prop_f = ''p'', operator = EQ, value_f = VNum (Fin 1)\<rparr>,
      \<lparr>prop_f = ''p'', operator = IN, value_f = VStr ''x''\<rparr>]
     = Returns \<lparr>own = [''p'' \<mapsto> Equal (VNum (Fin 1))], proto = Object_prototype\<rparr>
   \<and> convertFiltersToFindOptionsWhere [\<lparr>prop_f = ''p'', operator = IN, value_f = VStr ''x''\<rparr>]
     = Returns \<lparr>own = Map.empty, proto = Object_prototype\<rparr>
   \<and> convertFiltersToFindOptionsWhere
     [\<lparr>prop_f = ''__proto__'', operator = EQ, value_f = VNum (Fin 1)\<rparr>,
      \<lparr>prop_f = ''__proto__'', operator = EQ, value_f = VNum (Fin 2)\<rparr>]
     = Returns \<lparr>own = Map.empty, proto = Operator (Equal (VNum (Fin 2)))\<rparr>"
  by (simp add: convertFiltersToFindOptionsWhere_def forEach_step_def where_step_def
      assign_def FilterOperator_defs)

text \<open>
  C7, as amended. For a sequence in which no filter has the prop \<open>__proto__\<close> the
  translator returns a mapping. A filter with \<open>in\<close> or \<open>notIn\<close> whose value is not an
  array or is the empty array assigns nothing: the outcome is that of the sequence
  without the filter, so a returned mapping has no entry for a property when every
  filter on the property is of that kind. For a filter whose operator is no value of
  \<open>FilterOperator\<close> the translator assigns \<open>Equal(value)\<close> under the prop of the filter;
  when no filter has the prop \<open>__proto__\<close>, this is the entry for the prop after the
  filter.
\<close>

theorem translator_degrades:
  "(''__proto__'' \<notin> prop_f ` set fs \<longrightarrow> (\<exists>w. convertFiltersToFindOptionsWhere fs = Returns w))
   \<and> (omitted f \<longrightarrow>
        convertFiltersToFindOptionsWhere (fs @ f # gs) = convertFiltersToFindOptionsWhere (fs @ gs))
   \<and> (convertFiltersToFindOptionsWhere fs = Returns w \<and> (\<forall>g \<in> set fs. prop_f g = p \<longrightarrow> omitted g)
        \<longrightarrow> own w p = None)
   \<and> (operator f \<notin> set FilterOperator_values \<longrightarrow>
        where_step w' f = assign w' (prop_f f) (Equal (value_f f)))
   \<and> (operator f \<notin> set FilterOperator_values \<and> ''__proto__'' \<notin> prop_f ` set (fs @ [f]) \<longrightarrow>
        (\<exists>w0. convertFiltersToFindOptionsWhere fs = Returns w0
           \<and> convertFiltersToFindOptionsWhere (fs @ [f])
               = Returns (w0\<lparr>own := (own w0)(prop_f f \<mapsto> Equal (value_f f))\<rparr>)))"
proof (intro conjI impI)
  assume "''__proto__'' \<notin> prop_f ` set fs"
  then show "\<exists>w. convertFiltersToFindOptionsWhere fs = Returns w"
    using convert_returns by blast
next
  assume "omitted f"
  then have "forEach_step (convertFiltersToFindOptionsWhere fs) f = convertFiltersToFindOptionsWhere fs"
    by (rule forEach_step_omitted)
  then show "convertFiltersToFindOptionsWhere (fs @ f # gs) = convertFiltersToFindOptionsWhere (fs @ gs)"
    by (simp add: convert_append)
next
  assume a: "convertFiltersToFindOptionsWhere fs = Returns w \<and> (\<forall>g \<in> set fs. prop_f g = p \<longrightarrow> omitted g)"
  then have "filter (\<lambda>f. prop_f f = p \<and> \<not> omitted f) fs = []"
    by (auto simp: filter_empty_conv)
  with a show "own w p = None"
    by (simp add: convert_lookup [of fs w p])
next
  assume "operator f \<notin> set FilterOperator_values"
  then show "where_step w' f = assign w' (prop_f f) (Equal (value_f f))"
    by (rule where_step_unknown)
next
  assume a: "operator f \<notin> set FilterOperator_values \<and> ''__proto__'' \<notin> prop_f ` set (fs @ [f])"
  then have "''__proto__'' \<notin> prop_f ` set fs" and np: "prop_f f \<noteq> ''__proto__''"
    by auto
  then obtain w0 where w0: "convertFiltersToFindOptionsWhere fs = Returns w0" "proto w0 = Object_prototype"
    using convert_returns by blast
  from a have "where_step w0 f = assign w0 (prop_f f) (Equal (value_f f))"
    by (simp add: where_step_unknown)
  with w0 np have "convertFiltersToFindOptionsWhere (fs @ [f])
               = Returns (w0\<lparr>own := (own w0)(prop_f f \<mapsto> Equal (value_f f))\<rparr>)"
    by (simp add: convert_snoc forEach_step_def assign_plain)
  with w0(1) show "\<exists>w0. convertFiltersToFindOptionsWhere fs = Returns w0
           \<and> convertFiltersToFindOptionsWhere (fs @ [f])
               = Returns (w0\<lparr>own := (own w0)(prop_f f \<mapsto> Equal (value_f f))\<rparr>)"
    by blast
qed

theorem translator_degrades_witness:
  "omitted \<lparr>prop_f = ''p'', operator = IN, value_f = VArr []\<rparr>
   \<and> omitted \<lparr>prop_f = ''p'', operator = NOT_IN, value_f = VStr ''x''\<rparr>
   \<and> ''bogus'' \<notin> set FilterOperator_values
   \<and> ''__proto__'' \<notin> prop_f ` set ([] @ [\<lparr>prop_f = ''p'', operator = ''bogus'', value_f = VBool True\<rparr>])
   \<and> (\<exists>w. convertFiltersToFindOptionsWhere
              ([] @ [\<lparr>prop_f = ''p'', operator = ''bogus'', value_f = VBool True\<rparr>]) = Returns w)
   \<and> convertFiltersToFindOptionsWhere
        ([\<lparr>prop_f = ''q'', operator = GT, value_f = VNum (Fin 1)\<rparr>]
         @ \<lparr>prop_f = ''p'', operator = IN, value_f = VArr []\<rparr>
         # [\<lparr>prop_f = ''p'', operator = LE, value_f = VNum (Fin 2)\<rparr>])
      = convertFiltersToFindOptionsWhere
        ([\<lparr>prop_f = ''q'', operator = GT, value_f = VNum (Fin 1)\<rparr>]
         @ [\<lparr>prop_f = ''p'', operator = LE, value_f = VNum (Fin 2)\<rparr>])
   \<and> convertFiltersToFindOptionsWhere
        [\<lparr>prop_f = ''p'', operator = IN, value_f = VArr []\<rparr>,
         \<lparr>prop_f = ''p'', operator = NOT_IN, value_f = VStr ''x''\<rparr>]
      = Returns \<lparr>own = Map.empty, proto = Object_prototype\<rparr>
   \<and> own \<lparr>own = Map.empty, proto = Object_prototype\<rparr> ''p'' = None
   \<and> where_step \<lparr>own = Map.empty, proto = Object_prototype\<rparr>
        \<lparr>prop_f = ''p'', operator = ''bogus'', value_f = VBool True\<rparr>
      = assign \<lparr>own = Map.empty, proto = Object_prototype\<rparr> ''p'' (Equal (VBool True))
   \<and> (\<exists>w0. convertFiltersToFindOptionsWhere [] = Returns w0
         \<and> convertFiltersToFindOptionsWhere
              ([] @ [\<lparr>prop_f = ''p'', operator = ''bogus'', value_f = VBool True\<rparr>])
            = Returns (w0\<lparr>own := (own w0)(''p'' \<mapsto> Equal (VBool True))\<rparr>))"
proof -
  let ?f = "\<lparr>prop_f = ''p'', operator = IN, value_f = VArr []\<rparr>"
  let ?f' = "\<lparr>prop_f = ''p'', operator = NOT_IN, value_f = VStr ''x''\<rparr>"
  let ?g = "\<lparr>prop_f = ''q'', operator = GT, value_f = VNum (Fin 1)\<rparr>"
  let ?g' = "\<lparr>prop_f = ''p'', operator = LE, value_f = VNum (Fin 2)\<rparr>"
  let ?h = "\<lparr>prop_f = ''p'', operator = ''bogus'', value_f = VBool True\<rparr>"
  let ?e = "\<lparr>own = Map.empty, proto = Object_prototype\<rparr>"
  have o: "omitted ?f" "omitted ?f'" by (simp_all add: omitted_def)
  have b: "''bogus'' \<notin> set FilterOperator_values"
    by (simp add: FilterOperator_values_def FilterOperator_defs)
  have n: "''__proto__'' \<notin> prop_f ` set ([] @ [?h])" by simp
  have c: "convertFiltersToFindOptionsWhere [?f, ?f'] = Returns ?e"
    by (simp add: convertFiltersToFindOptionsWhere_def forEach_step_def where_step_def
        FilterOperator_defs)
  have 1: "\<exists>w. convertFiltersToFindOptionsWhere ([] @ [?h]) = Returns w"
    using translator_degrades [of "[] @ [?h]" ?f "[]" ?e "''p''" ?e] n by blast
  have 2: "convertFiltersToFindOptionsWhere ([?g] @ ?f # [?g'])
      = convertFiltersToFindOptionsWhere ([?g] @ [?g'])"
    using translator_degrades [of "[?g]" ?f "[?g']" ?e "''p''" ?e] o(1) by blast
  have "\<forall>g \<in> set [?f, ?f']. prop_f g = ''p'' \<longrightarrow> omitted g"
    using o by simp
  with c have 3: "own ?e ''p'' = None"
    using translator_degrades [of "[?f, ?f']" ?f "[]" ?e "''p''" ?e] by blast
  have 4: "where_step ?e ?h = assign ?e ''p'' (Equal (VBool True))"
    using translator_degrades [of "[]" ?h "[]" ?e "''p''" ?e] b by simp
  have 5: "\<exists>w0. convertFiltersToFindOptionsWhere [] = Returns w0
         \<and> convertFiltersToFindOptionsWhere ([] @ [?h])
            = Returns (w0\<lparr>own := (own w0)(''p'' \<mapsto> Equal (VBool True))\<rparr>)"
    using translator_degrades [of "[]" ?h "[]" ?e "''p''" ?e] b n by simp
  from o b n c 1 2 3 4 5 show ?thesis by blast
qed

text \<open>
  C7 as stated fails: in \<open>status eq active\<close> followed by \<open>status notIn []\<close> the second
  filter has the operator \<open>notIn\<close> and an empty array, and the mapping has an entry for
  its property, the one of the first filter.
\<close>

theorem omitted_filter_counterexample:
  "convertFiltersToFindOptionsWhere
     [\<lparr>prop_f = ''status'', operator = EQ, value_f = VStr ''active''\<rparr>,
      \<lparr>prop_f = ''status'', operator = NOT_IN, value_f = VArr []\<rparr>]
     = Returns \<lparr>own = [''status'' \<mapsto> Equal (VStr ''active'')], proto = Object_prototype\<rparr>"
  by (simp add: convertFiltersToFindOptionsWhere_def forEach_step_def where_step_def
      assign_def FilterOperator_defs)

section \<open>Unknown operators\<close>

lemma parse_loop_unknown:
  assumes "toLowerCase t \<noteq> ''and''" "toLowerCase t \<noteq> ''or''"
    and "toLowerCase op \<notin> set FilterOperator_values"
  shows "parse_loop (t # op # v # rest) filters = parse_loop rest filters"
proof -
  from assms(3) have "toLowerCase op \<noteq> IN" "toLowerCase op \<noteq> NOT_IN"
    by (auto simp: FilterOperator_values_def)
  with assms show ?thesis
    by (simp add: parse_loop.simps(2) push_filter_def Let_def)
qed

text \<open>
  C6. A triplet of tokens \<open>prop operator value\<close> whose lower-cased operator is not a
  value of \<open>FilterOperator\<close> is dropped: the loop goes on behind the three tokens with the
  filters it had, and nothing is raised. In particular \<open>name bogus x\<close> parses to the empty
  sequence.
\<close>

theorem unknown_operator_dropped:
  "(toLowerCase t \<noteq> ''and'' \<and> toLowerCase t \<noteq> ''or''
      \<and> toLowerCase op \<notin> set FilterOperator_values
      \<longrightarrow> parse_loop (t # op # v # rest) filters = parse_loop rest filters)
   \<and> parseFilterQueryParams [''filter'' \<mapsto> QStr ''name bogus x''] = []"
proof (intro conjI impI)
  assume "toLowerCase t \<noteq> ''and'' \<and> toLowerCase t \<noteq> ''or''
      \<and> toLowerCase op \<notin> set FilterOperator_values"
  then show "parse_loop (t # op # v # rest) filters = parse_loop rest filters"
    using parse_loop_unknown by blast
next
  show "parseFilterQueryParams [''filter'' \<mapsto> QStr ''name bogus x''] = []"
    by code_simp
qed

theorem unknown_operator_dropped_witness:
  "toLowerCase ''name'' \<noteq> ''and'' \<and> toLowerCase ''name'' \<noteq> ''or''
   \<and> toLowerCase ''bogus'' \<notin> set FilterOperator_values
   \<and> parse_loop [''name'', ''bogus'', ''x''] [] = []"
proof -
  have h: "toLowerCase ''name'' \<noteq> ''and'' \<and> toLowerCase ''name'' \<noteq> ''or''
      \<and> toLowerCase ''bogus'' \<notin> set FilterOperator_values"
    by code_simp
  with unknown_operator_dropped [of "''name''" "''bogus''" "''x''" "[]" "[]"]
  have "parse_loop [''name'', ''bogus'', ''x''] [] = parse_loop [] []"
    by blast
  with h show ?thesis by simp
qed

section \<open>Empty inputs\<close>

text \<open>
  C8. Serializing no descriptors gives the empty parameter object, so no \<open>filter\<close>
  parameter; parsing a query whose \<open>filter\<close> is the empty string, or is absent, gives no
  descriptors.
\<close>

theorem empty_inputs:
  "buildFilterQueryParams [] lop = Map.empty
   \<and> parseFilterQueryParams (query(''filter'' \<mapsto> QStr [])) = []
   \<and> parseFilterQueryParams (query(''filter'' := None)) = []"
  by (simp add: buildFilterQueryParams_def parseFilterQueryParams_def)

section \<open>Quoting of strings\<close>

lemma double_quotes_concat:
  "double_quotes s = concat (map (\<lambda>c. if c = sq then [sq, sq] else [c]) s)"
  by (induction s) simp_all

lemma quoted_neq: "quoted s \<noteq> s"
proof
  assume "quoted s = s"
  then have "length (quoted s) = length s" by simp
  moreover have "length s \<le> length (double_quotes s)"
    by (induction s) auto
  ultimately show False by (simp add: quoted_def)
qed

text \<open>
  C9. For a value that is a string, the formatter gives the string in single quotes,
  with every single quote inside written twice, exactly when the string has a space, a
  single quote, a double quote or \<open>@\<close> in it, and gives the string itself exactly when
  it has none of them. The descriptor \<open>email eq a@b.com\<close> is serialized as
  \<open>email eq 'a@b.com'\<close>, and the value \<open>O'Brien\<close> as \<open>'O''Brien'\<close>.
\<close>

theorem string_quoting:
  "(formatFilterValue (VStr s) = sq # concat (map (\<lambda>c. if c = sq then [sq, sq] else [c]) s) @ [sq]
      \<longleftrightarrow> CHR '' '' \<in> set s \<or> sq \<in> set s \<or> dq \<in> set s \<or> CHR ''@'' \<in> set s)
   \<and> (formatFilterValue (VStr s) = s
      \<longleftrightarrow> \<not> (CHR '' '' \<in> set s \<or> sq \<in> set s \<or> dq \<in> set s \<or> CHR ''@'' \<in> set s))
   \<and> buildFilterQueryParams
        [\<lparr>prop_f = ''email'', operator = EQ, value_f = VStr ''a@b.com''\<rparr>] L_and ''filter''
      = Some (''email eq 'a@b.com'' @ [sq])
   \<and> formatFilterValue (VStr ''O'Brien'') = sq # ''O'' @ [sq, sq] @ ''Brien'' @ [sq]
   \<and> formatFilterValue (VStr (''it's 5 o'clock'')) = sq # ''it'' @ [sq, sq] @ ''s 5 o'' @ [sq, sq] @ ''clock'' @ [sq]"
proof (intro conjI)
  show "buildFilterQueryParams
        [\<lparr>prop_f = ''email'', operator = EQ, value_f = VStr ''a@b.com''\<rparr>] L_and ''filter''
      = Some (''email eq 'a@b.com'' @ [sq])"
    by (simp add: buildFilterQueryParams_def filterToODataExpression_def formatFilterValue_def
        FilterOperator_defs str_includes_def quoted_def)
  show "formatFilterValue (VStr ''O'Brien'') = sq # ''O'' @ [sq, sq] @ ''Brien'' @ [sq]"
    by (simp add: formatFilterValue_def str_includes_def quoted_def)
  show "formatFilterValue (VStr (''it's 5 o'clock'')) = sq # ''it'' @ [sq, sq] @ ''s 5 o'' @ [sq, sq] @ ''clock'' @ [sq]"
    by (simp add: formatFilterValue_def str_includes_def quoted_def)
qed (use quoted_neq [of s] double_quotes_concat [of s] in
      \<open>auto simp: formatFilterValue_def str_includes_def quoted_def\<close>)

section \<open>Round trip\<close>

subsection \<open>The tokenizer on an expression\<close>

lemma is_space_lower_char [simp]: "is_space (lower_char c) = is_space c"
proof -
  have "(of_char c :: nat) mod 256 = of_char c" by (rule of_char_mod_256)
  then have "(of_char c :: nat) < 256" by (metis mod_less_divisor zero_less_numeral)
  then show ?thesis
    by (auto simp: is_space_def lower_char_def Let_def)
qed

lemma trim_id: "s \<noteq> [] \<Longrightarrow> \<not> is_space (hd s) \<Longrightarrow> \<not> is_space (last s) \<Longrightarrow> trim s = s"
proof -
  assume a: "s \<noteq> []" "\<not> is_space (hd s)" "\<not> is_space (last s)"
  then have 1: "dropWhile is_space s = s" by (cases s) auto
  from a have "dropWhile is_space (rev s) = rev s"
    by (cases "rev s") (auto simp: last_rev [symmetric] hd_rev)
  with 1 show ?thesis by (simp add: trim_def)
qed

lemma bare_word_trim: "bare_word s \<Longrightarrow> trim s = s"
proof -
  assume b: "bare_word s"
  then have "s \<noteq> []" by (simp add: bare_word_def)
  moreover from b this have "bare_char (hd s)" "bare_char (last s)"
    by (auto simp: bare_word_def list_all_iff)
  ultimately show ?thesis by (intro trim_id) (auto simp: bare_char_def)
qed

lemma tok_loop_append:
  "tok_loop prev st (xs @ ys) =
     tok_loop (if xs = [] then prev else Some (last xs)) (tok_loop prev st xs) ys"
  by (induction xs arbitrary: prev st) auto

lemma tok_bare:
  "list_all bare_char u \<Longrightarrow>
     tok_loop prev \<lparr>tokens = ts, current = cur, inQuotes = False, quoteChar = q\<rparr> u =
       \<lparr>tokens = ts, current = cur @ u, inQuotes = False, quoteChar = q\<rparr>"
proof (induction u arbitrary: prev cur)
  case Nil
  then show ?case by simp
next
  case (Cons c u)
  then have "tok_step prev \<lparr>tokens = ts, current = cur, inQuotes = False, quoteChar = q\<rparr> c =
      \<lparr>tokens = ts, current = cur @ [c], inQuotes = False, quoteChar = q\<rparr>"
    by (simp add: tok_step_def bare_char_def)
  with Cons show ?case by simp
qed

lemma tok_inside:
  "sq \<notin> set u \<Longrightarrow>
     tok_loop prev \<lparr>tokens = ts, current = cur, inQuotes = True, quoteChar = [sq]\<rparr> u =
       \<lparr>tokens = ts, current = cur @ u, inQuotes = True, quoteChar = [sq]\<rparr>"
proof (induction u arbitrary: prev cur)
  case Nil
  then show ?case by simp
next
  case (Cons c u)
  then have "c \<noteq> sq" by auto
  then have "tok_step prev \<lparr>tokens = ts, current = cur, inQuotes = True, quoteChar = [sq]\<rparr> c =
      \<lparr>tokens = ts, current = cur @ [c], inQuotes = True, quoteChar = [sq]\<rparr>"
    by (simp add: tok_step_def)
  with Cons show ?case by simp
qed

lemma tok_space:
  "bare_word w \<Longrightarrow>
     tok_step prev \<lparr>tokens = ts, current = w, inQuotes = False, quoteChar = q\<rparr> CHR '' '' =
       \<lparr>tokens = ts @ [w], current = [], inQuotes = False, quoteChar = q\<rparr>"
  by (simp add: tok_step_def flush_def bare_word_trim is_space_def) (simp add: bare_word_def)

lemma tok_two_words:
  assumes "bare_word p" "bare_word op"
  shows "tok_loop None \<lparr>tokens = [], current = [], inQuotes = False, quoteChar = []\<rparr>
           (p @ CHR '' '' # op @ CHR '' '' # vt) =
         tok_loop (Some CHR '' '') \<lparr>tokens = [p, op], current = [], inQuotes = False, quoteChar = []\<rparr> vt"
proof -
  have "list_all bare_char p" "list_all bare_char op" "p \<noteq> []" "op \<noteq> []"
    using assms by (simp_all add: bare_word_def)
  then show ?thesis
    using assms by (simp add: tok_loop_append tok_bare tok_space)
qed

lemma tokenize_bare:
  assumes "bare_word p" "bare_word op" "bare_word vt"
  shows "tokenizeODataExpression (p @ CHR '' '' # op @ CHR '' '' # vt) = [p, op, vt]"
proof -
  have "list_all bare_char vt" "vt \<noteq> []" "p \<noteq> []" "op \<noteq> []"
    using assms by (simp_all add: bare_word_def)
  then show ?thesis
    using assms
    by (simp add: tokenizeODataExpression_def tok_two_words tok_bare flush_def bare_word_trim)
qed

lemma tokenize_quoted:
  assumes "bare_word p" "bare_word op" "sq \<notin> set s"
  shows "tokenizeODataExpression (p @ CHR '' '' # op @ CHR '' '' # sq # s @ [sq]) = [p, op, sq # s @ [sq]]"
proof -
  let ?st2 = "\<lparr>tokens = [p, op], current = [], inQuotes = False, quoteChar = []\<rparr>"
  let ?st3 = "\<lparr>tokens = [p, op], current = [sq], inQuotes = True, quoteChar = [sq]\<rparr>"
  let ?st4 = "\<lparr>tokens = [p, op], current = sq # s, inQuotes = True, quoteChar = [sq]\<rparr>"
  have ne: "p \<noteq> []" "op \<noteq> []" using assms by (simp_all add: bare_word_def)
  have 1: "tok_step (Some CHR '' '') ?st2 sq = ?st3"
    by (simp add: tok_step_def flush_def trim_def)
  have 2: "tok_loop prev ?st3 s = ?st4" for prev
    using assms(3) by (simp add: tok_inside)
  have 3: "tokens (flush (tok_step prev ?st4 sq)) = [p, op, sq # s @ [sq]]" for prev
  proof (cases "prev = None \<or> prev \<noteq> Some bsl")
    case True
    then show ?thesis by (auto simp: tok_step_def flush_def trim_def)
  next
    case False
    have "trim (sq # s @ [sq]) = sq # s @ [sq]"
      by (rule trim_id) (simp_all add: is_space_def)
    with False show ?thesis by (simp add: tok_step_def flush_def)
  qed
  have "tok_loop (Some CHR '' '') ?st2 (sq # s @ [sq]) =
      tok_step (if s = [] then Some sq else Some (last s)) ?st4 sq"
    by (simp add: 1 tok_loop_append 2)
  then show ?thesis
    using assms ne by (simp add: tokenizeODataExpression_def tok_two_words 3)
qed

subsection \<open>The value parser on the text of a value\<close>

lemma lower_operators_facts:
  assumes "op \<in> set lower_operators"
  shows "bare_word op" "toLowerCase op = op" "op \<in> set FilterOperator_values"
    "op \<noteq> IS_NULL" "op \<noteq> IS_NOT_NULL" "\<not> is_joiner op"
  using assms
  by (auto simp: lower_operators_def FilterOperator_values_def FilterOperator_defs bare_word_def
      bare_char_def is_space_def toLowerCase_def lower_char_def is_joiner_def)

lemma parse_loop_three:
  assumes "\<not> is_joiner p" "op \<in> set lower_operators"
  shows "parse_loop [p, op, vt] [] = [\<lparr>prop_f = p, operator = op, value_f = parseValue vt\<rparr>]"
  using assms lower_operators_facts [OF assms(2)]
  by (simp add: parse_loop.simps(2) is_joiner_def push_filter_def Let_def)

lemma Number_js_literals:
  "Number_js ''null'' = NaN" "Number_js ''true'' = NaN" "Number_js ''false'' = NaN"
  by code_simp+

lemma bare_word_head:
  "bare_word s \<Longrightarrow> \<not> startsWith s [sq] \<and> \<not> startsWith s [dq] \<and> \<not> startsWith s ''(''"
  by (cases s) (auto simp: bare_word_def bare_char_def startsWith_def)

lemma parseValue_null: "parseValue ''null'' = VNull"
  by (simp add: parseValue.simps)

lemma parseValue_bool: "parseValue ''true'' = VBool True" "parseValue ''false'' = VBool False"
  by (simp_all add: parseValue.simps startsWith_def endsWith_def)

lemma parseValue_num:
  assumes "num_survives x"
  shows "parseValue (String_js x) = VNum x"
proof -
  let ?t = "String_js x"
  from assms have f: "isFinite x" and b: "bare_word ?t" and n: "Number_js ?t = x"
    by (simp_all add: num_survives_def)
  from f have nn: "x \<noteq> NaN" by (auto simp: isFinite_def)
  with n Number_js_literals have "?t \<noteq> ''null''" "?t \<noteq> ''true''" "?t \<noteq> ''false''"
    by metis+
  moreover from b have "?t \<noteq> []" by (simp add: bare_word_def)
  ultimately show ?thesis
    using bare_word_head [OF b] f n nn
    by (subst parseValue.simps) (simp add: isNaN_def)
qed

lemma parseValue_bare_string:
  assumes "bare_string s"
  shows "parseValue s = VStr s"
  using assms bare_word_head [of s]
  by (subst parseValue.simps) (simp add: bare_string_def)

lemma double_quotes_id: "sq \<notin> set s \<Longrightarrow> double_quotes s = s"
  by (induction s) auto

lemma undouble_quotes_id: "sq \<notin> set s \<Longrightarrow> undouble_quotes s = s"
  by (induction s rule: undouble_quotes.induct) auto

lemma parseValue_quoted:
  assumes "sq \<notin> set s"
  shows "parseValue (sq # s @ [sq]) = VStr s"
proof -
  have "startsWith (sq # s @ [sq]) [sq]" "endsWith (sq # s @ [sq]) [sq]"
    by (simp_all add: startsWith_def endsWith_def)
  moreover have "slice_1_m1 (sq # s @ [sq]) = s" by (simp add: slice_1_m1_def)
  ultimately show ?thesis
    using assms by (subst parseValue.simps) (simp add: undouble_quotes_id)
qed

lemma format_quotable:
  "quotable_string s \<Longrightarrow> formatFilterValue (VStr s) = sq # s @ [sq]"
  by (auto simp: quotable_string_def formatFilterValue_def str_includes_def quoted_def double_quotes_id)

lemma format_bare:
  "bare_string s \<Longrightarrow> formatFilterValue (VStr s) = s"
proof -
  assume b: "bare_string s"
  then have "list_all bare_char s" "CHR ''@'' \<notin> set s" by (simp_all add: bare_string_def bare_word_def)
  moreover have "\<not> bare_char CHR '' ''" "\<not> bare_char sq" "\<not> bare_char dq"
    by (simp_all add: bare_char_def is_space_def)
  ultimately have "CHR '' '' \<notin> set s" "sq \<notin> set s" "dq \<notin> set s"
    unfolding list_all_iff by blast+
  with \<open>CHR ''@'' \<notin> set s\<close> show ?thesis
    by (simp add: formatFilterValue_def str_includes_def)
qed

lemma lower_char_letter:
  assumes "of_char (lower_char c) = (n::nat)" "97 \<le> n" "n \<le> 122"
  shows "of_char c = n \<or> of_char c + 32 = n"
  using assms of_char_less_256 [of c]
  by (auto simp: lower_char_def Let_def split: if_splits)

lemma joiner_shape:
  assumes "is_joiner t"
  obtains c cs where "t = c # cs" "(of_char c :: nat) = 97 \<or> (of_char c :: nat) = 65
      \<or> (of_char c :: nat) = 111 \<or> (of_char c :: nat) = 79" "trim t = t"
proof -
  from assms have l: "map lower_char t = ''and'' \<or> map lower_char t = ''or''"
    by (simp add: is_joiner_def toLowerCase_def)
  then obtain c cs where t: "t = c # cs" by (cases t) auto
  with l have "lower_char c = CHR ''a'' \<or> lower_char c = CHR ''o''" by auto
  then have "(of_char (lower_char c) :: nat) = 97 \<or> (of_char (lower_char c) :: nat) = 111"
    by auto
  then have c: "(of_char c :: nat) = 97 \<or> (of_char c :: nat) = 65
      \<or> (of_char c :: nat) = 111 \<or> (of_char c :: nat) = 79"
    using lower_char_letter [of c 97] lower_char_letter [of c 111] by auto
  have ns: "\<not> is_space d" if "d \<in> set t" for d
  proof -
    from that l have "lower_char d \<in> set ''and'' \<or> lower_char d \<in> set ''or''"
      by (metis imageI set_map)
    then have "\<not> is_space (lower_char d)"
      by (auto simp: is_space_def)
    then show ?thesis by simp
  qed
  have "trim t = t"
    by (rule trim_id) (use t ns in auto)
  with t c show ?thesis by (rule that)
qed

lemma is_digit_10: "is_digit 10 c \<longleftrightarrow> 48 \<le> (of_char c :: nat) \<and> (of_char c :: nat) \<le> 57"
  by (auto simp: is_digit_def digit_val_def Let_def)

lemma joiner_not_number:
  assumes "is_joiner t"
  shows "Number_js t = NaN"
proof -
  from assms obtain c cs where t: "t = c # cs"
    and c: "(of_char c :: nat) = 97 \<or> (of_char c :: nat) = 65
      \<or> (of_char c :: nat) = 111 \<or> (of_char c :: nat) = 79"
    and tr: "trim t = t"
    by (rule joiner_shape)
  from c have nd: "\<not> is_digit 10 c" by (auto simp: is_digit_10)
  from c have "c \<noteq> CHR ''0''" "c \<noteq> CHR ''+''" "c \<noteq> CHR ''-''" "c \<noteq> CHR ''I''" "c \<noteq> CHR ''.''"
    by auto
  with nd tr show ?thesis
    unfolding t by (simp add: Number_js_def signed_literal_def decimal_literal_def Let_def)
qed

text \<open>
  The text of a plain value is one bare token or a quoted one without a single quote
  inside, and the value parser reads the value back from it.
\<close>

lemma plain_value_text:
  assumes "plain_value v"
  shows "(bare_word (formatFilterValue v) \<and> \<not> is_joiner (formatFilterValue v)
          \<or> (\<exists>s. formatFilterValue v = sq # s @ [sq] \<and> sq \<notin> set s \<and> quiet s []))
         \<and> parseValue (formatFilterValue v) = v"
proof (cases v)
  case VNull
  then show ?thesis
    by (simp add: formatFilterValue_def parseValue_null bare_word_def bare_char_def is_space_def
        is_joiner_def toLowerCase_def lower_char_def)
next
  case (VStr s)
  with assms consider "bare_string s" | "quotable_string s" by (auto simp: plain_value_def)
  then show ?thesis
  proof cases
    case 1
    then show ?thesis
      using VStr by (simp add: format_bare parseValue_bare_string) (simp add: bare_string_def)
  next
    case 2
    then have "sq \<notin> set s" "quiet s []" by (simp_all add: quotable_string_def)
    with 2 show ?thesis
      using VStr by (simp add: format_quotable parseValue_quoted)
  qed
next
  case (VNum x)
  with assms have ns: "num_survives x" by (simp add: plain_value_def)
  then have "isFinite x" "Number_js (String_js x) = x" by (simp_all add: num_survives_def)
  then have "\<not> is_joiner (String_js x)"
    using joiner_not_number [of "String_js x"] by (auto simp: isFinite_def)
  with ns show ?thesis
    using VNum by (simp add: formatFilterValue_def parseValue_num) (simp add: num_survives_def)
next
  case (VBool b)
  then show ?thesis
    by (cases b) (simp_all add: formatFilterValue_def parseValue_bool bare_word_def bare_char_def is_space_def
        is_joiner_def toLowerCase_def lower_char_def)
next
  case (VArr vs)
  with assms show ?thesis by (simp add: plain_value_def)
qed

lemma parse_expression:
  assumes "plain_filter f"
  shows "parseODataExpression (filterToODataExpression f) = [f]"
proof -
  let ?p = "prop_f f" and ?op = "operator f" and ?vt = "formatFilterValue (value_f f)"
  from assms have p: "bare_word ?p" "\<not> is_joiner ?p" and op: "?op \<in> set lower_operators"
    and v: "plain_value (value_f f)"
    by (simp_all add: plain_filter_def)
  note opf = lower_operators_facts [OF op]
  have e: "filterToODataExpression f = ?p @ CHR '' '' # ?op @ CHR '' '' # ?vt"
    using opf by (simp add: filterToODataExpression_def)
  from plain_value_text [OF v] have pv: "parseValue ?vt = value_f f"
    and shape: "bare_word ?vt \<or> (\<exists>s. ?vt = sq # s @ [sq] \<and> sq \<notin> set s)"
    by auto
  from shape have "tokenizeODataExpression (?p @ CHR '' '' # ?op @ CHR '' '' # ?vt) = [?p, ?op, ?vt]"
  proof
    assume "bare_word ?vt"
    with p(1) opf(1) show ?thesis by (rule tokenize_bare)
  next
    assume "\<exists>s. ?vt = sq # s @ [sq] \<and> sq \<notin> set s"
    then obtain s where s: "?vt = sq # s @ [sq]" "sq \<notin> set s" by blast
    show ?thesis
      unfolding s(1) using p(1) opf(1) s(2) by (rule tokenize_quoted)
  qed
  then have "parseODataExpression (filterToODataExpression f) = parse_loop [?p, ?op, ?vt] []"
    by (simp add: parseODataExpression_def e)
  also have "\<dots> = [\<lparr>prop_f = ?p, operator = ?op, value_f = parseValue ?vt\<rparr>]"
    using p(2) op by (rule parse_loop_three)
  also have "\<dots> = [f]" by (simp add: pv)
  finally show ?thesis .
qed

subsection \<open>The splitting loop on the joined expressions\<close>

lemma match_nonspace: "\<not> is_space c \<Longrightarrow> match_joiner w (c # cs) = None"
  by (simp add: match_joiner_def)

lemma quiet_nonspace: "list_all (\<lambda>c. \<not> is_space c) a \<Longrightarrow> quiet a y"
  by (induction a) (simp_all add: match_nonspace)

lemma quiet_append: "quiet (a @ b) y = (quiet a (b @ y) \<and> quiet b y)"
  by (induction a) auto

lemma takeWhile_space_append:
  "\<not> is_space c \<Longrightarrow> takeWhile is_space (a @ c # y) = takeWhile is_space a"
  by (induction a) auto

lemma dropWhile_space_append:
  "\<not> is_space c \<Longrightarrow> dropWhile is_space (a @ c # y) = dropWhile is_space a @ c # y"
  by (induction a) auto

lemma match_space_word:
  assumes u: "list_all (\<lambda>c. \<not> is_space c) u" "u \<noteq> []"
    and w: "list_all (\<lambda>c. \<not> is_space c) w"
    and neq: "toLowerCase u \<noteq> w"
    and y: "y = [] \<or> is_space (hd y)"
  shows "match_joiner w (CHR '' '' # u @ y) = None"
proof -
  from u obtain c cs where ucs: "u = c # cs" "\<not> is_space c" by (cases u) auto
  have sp: "is_space CHR '' ''" by (simp add: is_space_def)
  have tw: "takeWhile is_space (CHR '' '' # u @ y) = [CHR '' '']"
    and dw: "dropWhile is_space (CHR '' '' # u @ y) = u @ y"
    using ucs sp by simp_all
  have "\<not> (toLowerCase (take (length w) (u @ y)) = w
          \<and> takeWhile is_space (drop (length w) (u @ y)) \<noteq> [])"
  proof
    assume a: "toLowerCase (take (length w) (u @ y)) = w
          \<and> takeWhile is_space (drop (length w) (u @ y)) \<noteq> []"
    consider "length w < length u" | "length w = length u" | "length u < length w" by linarith
    then show False
    proof cases
      case 1
      then have "drop (length w) (u @ y) = drop (length w) u @ y" "drop (length w) u \<noteq> []"
        by simp_all
      moreover have "\<not> is_space (hd (drop (length w) u))"
        using u(1) 1 by (simp add: hd_drop_conv_nth list_all_length)
      ultimately have "takeWhile is_space (drop (length w) (u @ y)) = []"
        by (cases "drop (length w) u") auto
      with a show False by simp
    next
      case 2
      with a neq show False by simp
    next
      case 3
      show False
      proof (cases y)
        case Nil
        with 3 a have "length (toLowerCase (take (length w) (u @ y))) < length w"
          by (simp add: toLowerCase_def)
        with a show False by simp
      next
        case (Cons d ys)
        with y have d: "is_space d" by simp
        from 3 Cons have "take (length w) (u @ y) ! length u = d"
          by (simp add: nth_append)
        moreover from 3 Cons have "length u < length (take (length w) (u @ y))" by simp
        ultimately have "toLowerCase (take (length w) (u @ y)) ! length u = lower_char d"
          unfolding toLowerCase_def by (metis nth_map)
        with a have "w ! length u = lower_char d" by simp
        with d have "is_space (w ! length u)" by simp
        with w 3 show False by (simp add: list_all_length)
      qed
    qed
  qed
  then show ?thesis
    unfolding match_joiner_def Let_def tw dw by simp
qed

lemma match_extend_quote:
  assumes "match_joiner w (t @ sq # y) = Some n" "sq \<notin> set w" "w \<noteq> []"
  shows "match_joiner w t = Some n"
proof -
  have nsq: "\<not> is_space sq" by (simp add: is_space_def)
  have lsq: "lower_char sq = sq" by (simp add: lower_char_def)
  let ?r = "dropWhile is_space t"
  from assms(1) have ws1: "takeWhile is_space t \<noteq> []"
    and lw: "toLowerCase (take (length w) (?r @ sq # y)) = w"
    and ws2: "takeWhile is_space (drop (length w) (?r @ sq # y)) \<noteq> []"
    and n: "n = length (takeWhile is_space t) + length w
              + length (takeWhile is_space (drop (length w) (?r @ sq # y)))"
    by (auto simp: match_joiner_def Let_def takeWhile_space_append [OF nsq]
        dropWhile_space_append [OF nsq] split: if_splits)
  have len: "length w < length ?r"
  proof (rule ccontr)
    assume "\<not> length w < length ?r"
    then have le: "length ?r \<le> length w" by simp
    show False
    proof (cases "length ?r = length w")
      case True
      then have "drop (length w) (?r @ sq # y) = sq # y" by simp
      with ws2 nsq show False by simp
    next
      case False
      with le have lt: "length ?r < length w" by simp
      then have "take (length w) (?r @ sq # y) ! length ?r = sq"
        by (simp add: nth_append)
      moreover from lt have "length ?r < length (take (length w) (?r @ sq # y))" by simp
      ultimately have "toLowerCase (take (length w) (?r @ sq # y)) ! length ?r = sq"
        unfolding toLowerCase_def by (metis nth_map lsq)
      with lw have "w ! length ?r = sq" by simp
      with lt assms(2) show False by (metis nth_mem)
    qed
  qed
  then have 1: "take (length w) (?r @ sq # y) = take (length w) ?r" by simp
  from len have "drop (length w) (?r @ sq # y) = drop (length w) ?r @ sq # y" by simp
  then have 2: "takeWhile is_space (drop (length w) (?r @ sq # y))
      = takeWhile is_space (drop (length w) ?r)"
    by (simp add: takeWhile_space_append [OF nsq])
  show ?thesis
    using ws1 lw ws2 n unfolding 1 2 by (simp add: match_joiner_def Let_def)
qed

lemma quiet_extend_quote:
  "quiet s [] \<Longrightarrow> quiet s (sq # y)"
proof (induction s)
  case Nil
  then show ?case by simp
next
  case (Cons c cs)
  have "match_joiner w (c # cs @ sq # y) = None" if "match_joiner w (c # cs) = None"
    "sq \<notin> set w" "w \<noteq> []" for w
  proof (cases "match_joiner w (c # cs @ sq # y)")
    case None
    then show ?thesis .
  next
    case (Some n)
    then have "match_joiner w ((c # cs) @ sq # y) = Some n" by simp
    from match_extend_quote [OF this that(2,3)] that(1) show ?thesis by simp
  qed
  from this [of "''and''"] this [of "''or''"] Cons show ?case by simp
qed

lemma bare_word_nonspace: "bare_word u \<Longrightarrow> list_all (\<lambda>c. \<not> is_space c) u"
  by (simp add: bare_word_def bare_char_def list_all_iff)

lemma bare_word_last: "bare_word u \<Longrightarrow> u \<noteq> [] \<and> \<not> is_space (last u)"
proof -
  assume b: "bare_word u"
  then have ne: "u \<noteq> []" by (simp add: bare_word_def)
  then have "last u \<in> set u" by simp
  with b have "bare_char (last u)" unfolding bare_word_def list_all_iff by blast
  with ne show ?thesis by (simp add: bare_char_def)
qed

lemma joiner_words_nonspace:
  "list_all (\<lambda>c. \<not> is_space c) ''and''" "list_all (\<lambda>c. \<not> is_space c) ''or''"
  by (simp_all add: is_space_def)

lemma quiet_space_word:
  assumes "bare_word u" "\<not> is_joiner u" "y = [] \<or> is_space (hd y)"
  shows "quiet (CHR '' '' # u) y"
proof -
  have ns: "list_all (\<lambda>c. \<not> is_space c) u" and ne: "u \<noteq> []"
    using assms(1) by (simp_all add: bare_word_nonspace) (simp add: bare_word_def)
  from assms(2) have "toLowerCase u \<noteq> ''and''" "toLowerCase u \<noteq> ''or''"
    by (simp_all add: is_joiner_def)
  then have "match_joiner ''and'' (CHR '' '' # u @ y) = None" "match_joiner ''or'' (CHR '' '' # u @ y) = None"
    using ns ne assms(3) joiner_words_nonspace by (simp_all add: match_space_word)
  moreover have "quiet u y" using ns by (rule quiet_nonspace)
  ultimately show ?thesis by simp
qed

lemma quiet_space_quoted:
  assumes "sq \<notin> set s" "quiet s []"
  shows "quiet (CHR '' '' # sq # s @ [sq]) y"
proof -
  have sp: "is_space CHR '' ''" "\<not> is_space sq" by (simp_all add: is_space_def)
  have "match_joiner ''and'' (CHR '' '' # sq # s @ sq # y) = None"
    "match_joiner ''or'' (CHR '' '' # sq # s @ sq # y) = None"
    using sp by (simp_all add: match_joiner_def toLowerCase_def lower_char_def)
  moreover have "quiet (sq # s @ [sq]) y"
    using quiet_extend_quote [OF assms(2), of y] sp
    by (simp add: match_nonspace quiet_append)
  ultimately show ?thesis by simp
qed

lemma expression_well_separated:
  assumes "plain_filter f"
  shows "well_separated (filterToODataExpression f)"
proof -
  let ?p = "prop_f f" and ?op = "operator f" and ?vt = "formatFilterValue (value_f f)"
  from assms have p: "bare_word ?p" "\<not> is_joiner ?p" and op: "?op \<in> set lower_operators"
    and v: "plain_value (value_f f)"
    by (simp_all add: plain_filter_def)
  note opf = lower_operators_facts [OF op]
  have e: "filterToODataExpression f = ?p @ CHR '' '' # ?op @ CHR '' '' # ?vt"
    using opf by (simp add: filterToODataExpression_def)
  have sp: "is_space CHR '' ''" "\<not> is_space sq" by (simp_all add: is_space_def)
  from p(1) obtain c cs where pc: "?p = c # cs" "\<not> is_space c"
    by (cases ?p) (auto simp: bare_word_def bare_char_def)
  from plain_value_text [OF v]
  have shape: "(bare_word ?vt \<and> \<not> is_joiner ?vt)
     \<or> (\<exists>s. ?vt = sq # s @ [sq] \<and> sq \<notin> set s \<and> quiet s [])"
    by blast
  have vt_last: "?vt \<noteq> [] \<and> \<not> is_space (last ?vt)"
    using shape
  proof
    assume "bare_word ?vt \<and> \<not> is_joiner ?vt"
    then show ?thesis by (simp add: bare_word_last)
  next
    assume "\<exists>s. ?vt = sq # s @ [sq] \<and> sq \<notin> set s \<and> quiet s []"
    then obtain s where "?vt = sq # s @ [sq]" by blast
    then show ?thesis using sp by simp
  qed
  have vt_quiet: "quiet (CHR '' '' # ?vt) y" if "y = [] \<or> is_space (hd y)" for y
    using shape
  proof
    assume "bare_word ?vt \<and> \<not> is_joiner ?vt"
    with that show ?thesis by (intro quiet_space_word) simp_all
  next
    assume "\<exists>s. ?vt = sq # s @ [sq] \<and> sq \<notin> set s \<and> quiet s []"
    then obtain s where s: "?vt = sq # s @ [sq]" "sq \<notin> set s" "quiet s []" by blast
    show ?thesis unfolding s(1) using s(2,3) by (rule quiet_space_quoted)
  qed
  have q: "quiet (filterToODataExpression f) y" if "y = [] \<or> is_space (hd y)" for y
  proof -
    have 1: "quiet ?p (CHR '' '' # ?op @ CHR '' '' # ?vt @ y)"
      using p(1) by (intro quiet_nonspace bare_word_nonspace)
    have 2: "quiet (CHR '' '' # ?op) (CHR '' '' # ?vt @ y)"
      using opf(1,6) sp by (intro quiet_space_word) simp_all
    have 3: "quiet (CHR '' '' # ?vt) y" using that by (rule vt_quiet)
    have "filterToODataExpression f = ?p @ (CHR '' '' # ?op) @ (CHR '' '' # ?vt)"
      by (simp add: e)
    then show ?thesis
      using 1 2 3 by (simp only: quiet_append) simp
  qed
  have "trim (filterToODataExpression f) = filterToODataExpression f"
    by (rule trim_id) (use pc vt_last in \<open>simp_all add: e\<close>)
  moreover have "filterToODataExpression f \<noteq> ''AND''" "filterToODataExpression f \<noteq> ''OR''"
  proof -
    have "CHR '' '' \<in> set (filterToODataExpression f)" by (simp add: e)
    then show "filterToODataExpression f \<noteq> ''AND''" "filterToODataExpression f \<noteq> ''OR''"
      by auto
  qed
  ultimately show ?thesis
    using pc q by (simp add: well_separated_def e)
qed

declare split_loop.simps [simp del]

lemma split_loop_quiet:
  "quiet x y \<Longrightarrow> split_loop (x @ y) parts cur = split_loop y parts (cur @ x)"
proof (induction x arbitrary: cur)
  case Nil
  then show ?case by simp
next
  case (Cons c cs)
  then have "split_loop ((c # cs) @ y) parts cur = split_loop (cs @ y) parts (cur @ [c])"
    by (simp add: split_loop.simps(2))
  also have "\<dots> = split_loop y parts ((cur @ [c]) @ cs)"
    using Cons by simp
  finally show ?case by simp
qed

lemma split_loop_joiner:
  assumes "z \<noteq> []" "\<not> is_space (hd z)" "trim cur \<noteq> []"
  shows "split_loop (CHR '' '' # logical_str lop @ CHR '' '' # z) parts cur =
           split_loop z (parts @ [trim cur, marker lop]) []"
proof -
  from assms obtain c zs where z: "z = c # zs" "\<not> is_space c" by (cases z) auto
  have sp: "is_space CHR '' ''" "\<not> is_space CHR ''a''" "\<not> is_space CHR ''o''"
    by (simp_all add: is_space_def)
  show ?thesis
  proof (cases lop)
    case L_and
    have "match_joiner ''and'' (CHR '' '' # ''and'' @ CHR '' '' # z) = Some 5"
      using z sp by (simp add: match_joiner_def toLowerCase_def lower_char_def)
    then show ?thesis
      using L_and assms(3) by (simp add: split_loop.simps(2) marker_def)
  next
    case L_or
    have "match_joiner ''and'' (CHR '' '' # ''or'' @ CHR '' '' # z) = None"
      "match_joiner ''or'' (CHR '' '' # ''or'' @ CHR '' '' # z) = Some 4"
      using z sp by (simp_all add: match_joiner_def toLowerCase_def lower_char_def)
    then show ?thesis
      using L_or assms(3) by (simp add: split_loop.simps(2) marker_def)
  qed
qed

lemma join_nonempty:
  "es \<noteq> [] \<Longrightarrow> list_all well_separated es \<Longrightarrow>
     join sep es \<noteq> [] \<and> \<not> is_space (hd (join sep es))"
  by (cases es; cases "tl es") (auto simp: well_separated_def)

lemma split_loop_join:
  assumes "es \<noteq> []" "list_all well_separated es"
  shows "split_loop (join (CHR '' '' # logical_str lop @ '' '') es) parts [] =
           (parts @ concat (map (\<lambda>e. [e, marker lop]) (butlast es)), last es)"
  using assms
proof (induction es arbitrary: parts)
  case Nil
  then show ?case by simp
next
  case (Cons e es)
  then have e: "well_separated e" by simp
  show ?case
  proof (cases es)
    case Nil
    from e have "quiet e []" by (simp add: well_separated_def)
    from split_loop_quiet [OF this, of parts "[]"] show ?thesis
      using Nil by (simp add: split_loop.simps(1))
  next
    case (Cons e' es')
    let ?sep = "CHR '' '' # logical_str lop @ '' ''"
    let ?rest = "join ?sep es"
    from Cons.prems Cons have es: "es \<noteq> []" "list_all well_separated es" by simp_all
    from join_nonempty [OF es] have r: "?rest \<noteq> []" "\<not> is_space (hd ?rest)" by simp_all
    have sp: "is_space CHR '' ''" by (simp add: is_space_def)
    from e sp have "quiet e (?sep @ ?rest)" by (simp add: well_separated_def)
    then have "split_loop (e @ ?sep @ ?rest) parts [] = split_loop (?sep @ ?rest) parts e"
      using split_loop_quiet [of e "?sep @ ?rest" parts "[]"] by simp
    also have "\<dots> = split_loop ?rest (parts @ [trim e, marker lop]) []"
      using split_loop_joiner [OF r, of e lop parts] e by (simp add: well_separated_def)
    also have "\<dots> = ((parts @ [trim e, marker lop]) @ concat (map (\<lambda>e. [e, marker lop]) (butlast es)), last es)"
      using es by (rule Cons.IH)
    finally show ?thesis
      using Cons e by (simp add: well_separated_def)
  qed
qed

lemma split_parts_join:
  assumes "es \<noteq> []" "list_all well_separated es"
  shows "filter (\<lambda>part. part \<noteq> ''AND'' \<and> part \<noteq> ''OR'')
           (split_parts (join (CHR '' '' # logical_str lop @ '' '') es)) = es"
proof -
  have m: "marker lop = ''AND'' \<or> marker lop = ''OR''"
    by (cases lop) (simp_all add: marker_def)
  have keep: "filter (\<lambda>part. part \<noteq> ''AND'' \<and> part \<noteq> ''OR'') (concat (map (\<lambda>e. [e, marker lop]) xs)) = xs"
    if "list_all well_separated xs" for xs
    using that m by (induction xs) (auto simp: well_separated_def)
  from assms have l: "well_separated (last es)" and b: "list_all well_separated (butlast es)"
    by (auto simp: list_all_iff dest: in_set_butlastD)
  from l have "trim (last es) = last es" "last es \<noteq> []" "last es \<noteq> ''AND''" "last es \<noteq> ''OR''"
    by (simp_all add: well_separated_def)
  then show ?thesis
    using assms(1) by (simp add: split_parts_def split_loop_join [OF assms] keep [OF b])
qed

subsection \<open>Integers are printed and read back exactly\<close>

lemma ndigits_pos: "0 < n \<Longrightarrow> ndigits b n = Suc (ndigits b (n div (b + 2)))"
  by (subst ndigits.simps) simp

lemma ndigits_zero: "ndigits b 0 = 0"
  by (subst ndigits.simps) simp

lemma ndigits_bounds:
  "0 < n \<Longrightarrow> (b + 2) ^ (ndigits b n - 1) \<le> n \<and> n < (b + 2) ^ ndigits b n"
proof (induction n rule: less_induct)
  case (less n)
  define B where "B = b + 2"
  define m where "m = n div B"
  have B: "2 \<le> B" by (simp add: B_def)
  have nd: "ndigits b n = Suc (ndigits b m)"
    using less.prems unfolding m_def B_def by (rule ndigits_pos)
  show ?case
  proof (cases "m = 0")
    case True
    then have "n < B" using B by (simp add: m_def div_eq_0_iff)
    with True less.prems have "B ^ (ndigits b n - 1) \<le> n \<and> n < B ^ ndigits b n"
      by (simp add: nd ndigits_zero)
    then show ?thesis unfolding B_def .
  next
    case False
    then have m: "0 < m" by simp
    have "m < n" using less.prems B unfolding m_def by (intro div_less_dividend) simp_all
    from less.IH [OF this m]
    have lo: "B ^ (ndigits b m - 1) \<le> m" and hi: "m < B ^ ndigits b m"
      by (simp_all add: B_def)
    have dm: "0 < ndigits b m" using m by (simp add: ndigits_pos)
    then have "B ^ ndigits b m = B ^ (ndigits b m - 1) * B"
      by (cases "ndigits b m") simp_all
    also have "\<dots> \<le> m * B" using lo by (rule mult_le_mono1)
    also have "\<dots> \<le> n" unfolding m_def by (simp add: mult.commute)
    finally have 1: "B ^ ndigits b m \<le> n" .
    from hi have "Suc m \<le> B ^ ndigits b m" by simp
    then have "Suc m * B \<le> B ^ ndigits b m * B" by (rule mult_le_mono1)
    moreover have "n < Suc m * B"
      using dividend_less_div_times [of B n] B unfolding m_def by (simp add: mult.commute)
    ultimately have 2: "n < B ^ Suc (ndigits b m)" by (simp add: mult.commute)
    from 1 2 have "B ^ (ndigits b n - 1) \<le> n \<and> n < B ^ ndigits b n"
      by (simp add: nd)
    then show ?thesis unfolding B_def .
  qed
qed

lemma ndigits_unique:
  assumes "(b + 2) ^ (k - 1) \<le> n" "n < (b + 2) ^ k" "0 < n" "0 < k"
  shows "ndigits b n = k"
proof -
  define B where "B = b + 2"
  define d where "d = ndigits b n"
  have B: "1 < B" by (simp add: B_def)
  from ndigits_bounds [OF assms(3), of b] have lo: "B ^ (d - 1) \<le> n" and hi: "n < B ^ d"
    by (simp_all add: B_def d_def)
  have d: "0 < d" using assms(3) by (simp add: d_def ndigits_pos)
  from assms(1) hi have "B ^ (k - 1) < B ^ d" unfolding B_def by (rule le_less_trans)
  with B have 1: "k - 1 < d" by (rule power_less_imp_less_exp)
  from lo assms(2) have "B ^ (d - 1) < B ^ k" unfolding B_def by (rule le_less_trans)
  with B have 2: "d - 1 < k" by (rule power_less_imp_less_exp)
  from 1 2 d assms(4) show ?thesis unfolding d_def by simp
qed

lemma ndigits_bounds_2:
  "0 < n \<Longrightarrow> 2 ^ (ndigits 0 n - 1) \<le> n \<and> n < 2 ^ ndigits 0 n"
  using ndigits_bounds [of n 0] by (simp only: add_0)

lemma ndigits_bounds_10:
  "0 < n \<Longrightarrow> 10 ^ (ndigits 8 n - 1) \<le> n \<and> n < 10 ^ ndigits 8 n"
proof -
  have e: "(8::nat) + 2 = 10" by simp
  assume "0 < n"
  from ndigits_bounds [OF this, of 8] show ?thesis unfolding e .
qed

lemma ndigits_unique_10:
  assumes "10 ^ (k - 1) \<le> n" "n < 10 ^ k" "0 < n" "0 < k"
  shows "ndigits 8 n = k"
proof -
  have e: "(8::nat) + 2 = 10" by simp
  show ?thesis
    by (rule ndigits_unique) (use assms in \<open>simp_all only: e\<close>)
qed

lemma round_half_even_int: "round_half_even (of_int k) = k"
  by (simp add: round_half_even_def)

lemma round_double_nat:
  assumes "0 < N" "N < 2 ^ 53"
  shows "round_double (of_nat N) = Fin (of_nat N)"
proof -
  let ?d = "ndigits 0 N"
  from ndigits_bounds_2 [OF assms(1)] have lo: "2 ^ (?d - 1) \<le> N" and hi: "N < 2 ^ ?d"
    by simp_all
  have d0: "0 < ?d" using assms(1) by (simp add: ndigits_pos)
  from lo assms(2) have "(2::nat) ^ (?d - 1) < 2 ^ 53" by (rule le_less_trans)
  then have d: "?d - 1 < 53" by (intro power_less_imp_less_exp [of 2]) simp_all
  define j where "j = 53 - ?d"
  have q1: "(1::rat) \<le> of_nat N" using assms(1) by simp
  have il: "ilog2 (of_nat N) = int ?d - 1" using q1 by (simp add: ilog2_def)
  have mx: "max (int ?d - 1) (- 1022) = int ?d - 1" using d0 by simp
  have pw: "pow2 (int ?d - 1 - 52) = 1 / 2 ^ j"
    using d d0 by (auto simp: pow2_def j_def nat_diff_distrib)
  have "of_nat N / (1 / 2 ^ j) = (of_int (int (N * 2 ^ j)) :: rat)" by simp
  then have rh: "round_half_even (of_nat N / (1 / 2 ^ j)) = int (N * 2 ^ j)"
    by (simp only: round_half_even_int)
  have rp: "round_pos (of_nat N) = of_nat N"
    unfolding round_pos_def Let_def il mx pw rh by simp
  have "(of_nat N :: rat) < 2 ^ 1024"
  proof -
    have "(of_nat N :: rat) < of_nat (2 ^ 53)" using assms(2) by (simp only: of_nat_less_iff)
    also have "\<dots> < 2 ^ 1024" by simp
    finally show ?thesis .
  qed
  then show ?thesis
    using assms(1) by (simp add: round_double_def rp)
qed

lemma digit_val_char: "d < 10 \<Longrightarrow> digit_val (char_of (48 + d)) = d"
  by (simp add: digit_val_def Let_def)

lemma digits_val_snoc: "digits_val b (xs @ [c]) = digits_val b xs * b + digit_val c"
  by (simp add: digits_val_def)

lemma digits10_pos: "0 < n \<Longrightarrow> digits10 n = digits10 (n div 10) @ [char_of (48 + n mod 10)]"
  by (subst digits10.simps) simp

lemma digits10_zero: "digits10 0 = []"
  by (subst digits10.simps) simp

lemma digits10_props:
  "list_all (is_digit 10) (digits10 n) \<and> digits_val 10 (digits10 n) = n
   \<and> length (digits10 n) = ndigits 8 n"
proof (induction n rule: less_induct)
  case (less n)
  show ?case
  proof (cases "n = 0")
    case True
    then show ?thesis by (simp add: digits10_zero ndigits_zero digits_val_def)
  next
    case False
    then have n: "0 < n" by simp
    then have "n div 10 < n" by simp
    from less.IH [OF this] n show ?thesis
      by (simp add: digits10_pos ndigits_pos digits_val_snoc digit_val_char is_digit_def)
  qed
qed

lemma closer_cases: "closer x k a b = a \<or> closer x k a b = b"
  by (simp add: closer_def Let_def)

lemma foldl_closer_mem: "foldl (closer x k) c cs \<in> set (c # cs)"
proof (induction cs arbitrary: c)
  case Nil
  show ?case by simp
next
  case (Cons d ds)
  from Cons [of "closer x k c d"] closer_cases [of x k c d] show ?case by auto
qed

lemma shortest_found:
  assumes "digit_candidates x K n0 \<noteq> []" "k \<le> K" "K < k + fuel"
  shows "\<exists>k' s n. shortest_digits x n0 k fuel = (k', s, n) \<and> k \<le> k' \<and> k' \<le> K
           \<and> (s, n) \<in> set (digit_candidates x k' n0)"
  using assms(2,3)
proof (induction fuel arbitrary: k)
  case 0
  then show ?case by simp
next
  case (Suc fuel)
  show ?case
  proof (cases "digit_candidates x k n0")
    case Nil
    with assms(1) have "k \<noteq> K" by auto
    with Suc.prems have "Suc k \<le> K" "K < Suc k + fuel" by simp_all
    from Suc.IH [OF this] obtain k' s n where
      "shortest_digits x n0 (Suc k) fuel = (k', s, n)" "Suc k \<le> k'" "k' \<le> K"
      "(s, n) \<in> set (digit_candidates x k' n0)"
      by blast
    with Nil show ?thesis by auto
  next
    case (Cons c cs)
    obtain s n where sn: "foldl (closer x k) c cs = (s, n)" by (cases "foldl (closer x k) c cs")
    with foldl_closer_mem [of x k c cs] Cons have "(s, n) \<in> set (digit_candidates x k n0)"
      by simp
    with Cons sn Suc.prems show ?thesis by simp
  qed
qed

lemma candidate_props:
  "(s, n) \<in> set (digit_candidates x k n0) \<Longrightarrow>
     (n = n0 \<or> n = n0 + 1) \<and> 10 ^ (k - 1) \<le> s \<and> s < 10 ^ k
     \<and> round_double (of_nat s * pow10 (n - int k)) = Fin x"
  by (auto simp: digit_candidates_def)

lemma candidate_self:
  assumes "0 < N" "N < 2 ^ 53"
  shows "(N, int (ndigits 8 N)) \<in> set (digit_candidates (of_nat N) (ndigits 8 N) (int (ndigits 8 N)))"
proof -
  from ndigits_bounds_10 [OF assms(1)] round_double_nat [OF assms]
  show ?thesis
    by (simp add: digit_candidates_def pow10_def)
qed

lemma digits_val_zeros:
  "digits_val 10 (ds @ replicate z CHR ''0'') = digits_val 10 ds * 10 ^ z"
proof (induction z)
  case 0
  show ?case by simp
next
  case (Suc z)
  have "ds @ replicate (Suc z) CHR ''0'' = (ds @ replicate z CHR ''0'') @ [CHR ''0'']"
    by (simp add: replicate_append_same)
  then show ?case
    using Suc by (simp only: digits_val_snoc) (simp add: digit_val_def)
qed

lemma not_digit_dot: "\<not> is_digit 10 CHR ''.''"
  by (simp add: is_digit_def digit_val_def)

lemma takeWhile_all: "list_all P xs \<Longrightarrow> takeWhile P (xs @ ys) = xs @ takeWhile P ys"
  by (induction xs) auto

lemma dropWhile_all: "list_all P xs \<Longrightarrow> dropWhile P (xs @ ys) = dropWhile P ys"
  by (induction xs) auto

lemma decimal_int_text:
  assumes "list_all (is_digit 10) ds" "ds \<noteq> []"
  shows "decimal_literal ds = Some (of_nat (digits_val 10 ds))"
proof -
  have tw: "takeWhile (is_digit 10) ds = ds" and dw: "dropWhile (is_digit 10) ds = []"
    using assms(1) by (simp_all add: list_all_iff)
  show ?thesis
    unfolding decimal_literal_def Let_def tw dw
    using assms(2) by (simp add: exponent_part_def pow10_def)
qed

lemma decimal_frac_text:
  assumes "list_all (is_digit 10) ds1" "ds1 \<noteq> []" "list_all (is_digit 10) ds2"
  shows "decimal_literal (ds1 @ CHR ''.'' # ds2) =
           Some (of_nat (digits_val 10 (ds1 @ ds2)) * pow10 (- int (length ds2)))"
proof -
  have tw: "takeWhile (is_digit 10) (ds1 @ CHR ''.'' # ds2) = ds1"
    and dw: "dropWhile (is_digit 10) (ds1 @ CHR ''.'' # ds2) = CHR ''.'' # ds2"
    using assms(1) by (simp_all add: takeWhile_all dropWhile_all not_digit_dot)
  have tw2: "takeWhile (is_digit 10) ds2 = ds2" and dw2: "dropWhile (is_digit 10) ds2 = []"
    using assms(3) by (simp_all add: list_all_iff)
  have d1: "take 1 (CHR ''.'' # ds2) = ''.''" "drop 1 (CHR ''.'' # ds2) = ds2" by simp_all
  show ?thesis
    unfolding decimal_literal_def Let_def tw dw d1 tw2 dw2
    using assms(2) by (simp add: exponent_part_def)
qed

lemma dec_char_bare: "dec_char c \<Longrightarrow> bare_char c"
  by (auto simp: dec_char_def is_digit_10 bare_char_def is_space_def)

lemma not_dec_char:
  "\<not> dec_char CHR ''x''" "\<not> dec_char CHR ''X''" "\<not> dec_char CHR ''o''" "\<not> dec_char CHR ''O''"
  "\<not> dec_char CHR ''b''" "\<not> dec_char CHR ''B''" "\<not> dec_char CHR ''+''" "\<not> dec_char CHR ''-''"
  "\<not> dec_char CHR ''I''"
  by (simp_all add: dec_char_def is_digit_10)

lemma dec_text_prefix:
  assumes "list_all dec_char t" "\<not> dec_char c" "c \<in> set p"
  shows "take n t \<noteq> p" "t \<noteq> p"
proof -
  from assms(1) have "\<forall>d \<in> set t. dec_char d" by (simp add: list_all_iff)
  then have "\<forall>d \<in> set (take n t). dec_char d" by (meson in_set_takeD)
  with assms(2,3) show "take n t \<noteq> p" by blast
  from \<open>\<forall>d \<in> set t. dec_char d\<close> assms(2,3) show "t \<noteq> p" by blast
qed

lemma Number_js_decimal:
  assumes "list_all dec_char t" "decimal_literal t = Some q"
  shows "Number_js t = round_double q" and "Number_js (CHR ''-'' # t) = round_double (- q)"
proof -
  have ne: "t \<noteq> []" using assms(2) by (auto simp: decimal_literal_def Let_def)
  from assms(1) have "list_all bare_char t"
    by (simp add: list_all_iff dec_char_bare)
  with ne have bw: "bare_word t" by (simp add: bare_word_def)
  then have tr: "trim t = t" by (rule bare_word_trim)
  have bm: "bare_word (CHR ''-'' # t)"
    using bw by (simp add: bare_word_def bare_char_def is_space_def)
  then have trm: "trim (CHR ''-'' # t) = CHR ''-'' # t" by (rule bare_word_trim)
  note px = dec_text_prefix [OF assms(1)]
  have p2: "take 2 t \<noteq> ''0x''" "take 2 t \<noteq> ''0X''" "take 2 t \<noteq> ''0o''" "take 2 t \<noteq> ''0O''"
    "take 2 t \<noteq> ''0b''" "take 2 t \<noteq> ''0B''"
    by (rule px(1), rule not_dec_char, simp)+
  have p1: "take 1 t \<noteq> ''+''" "take 1 t \<noteq> ''-''"
    by (rule px(1), rule not_dec_char, simp)+
  have inf: "t \<noteq> ''Infinity''"
    by (rule px(2), rule not_dec_char(9), simp)
  show "Number_js t = round_double q"
    unfolding Number_js_def Let_def tr using ne p2 p1 inf assms(2)
    by (simp add: signed_literal_def)
  show "Number_js (CHR ''-'' # t) = round_double (- q)"
    unfolding Number_js_def Let_def trm using inf assms(2)
    by (simp add: signed_literal_def)
qed

lemma show_pos_form:
  assumes "digit_candidates x K (ilog10 x) \<noteq> []" "1 \<le> K" "K \<le> 17"
    and "1 \<le> ilog10 x" "ilog10 x \<le> 16"
  shows "\<exists>q. list_all dec_char (show_pos x) \<and> decimal_literal (show_pos x) = Some q
           \<and> 0 < q \<and> round_double q = Fin x"
proof -
  from shortest_found [OF assms(1,2), of 17] assms(3)
  obtain k s n where sd: "shortest_digits x (ilog10 x) 1 17 = (k, s, n)"
    and k: "1 \<le> k" "k \<le> K" and mem: "(s, n) \<in> set (digit_candidates x k (ilog10 x))"
    by auto
  from candidate_props [OF mem]
  have n: "n = ilog10 x \<or> n = ilog10 x + 1" and lo: "10 ^ (k - 1) \<le> s" and hi: "s < 10 ^ k"
    and rd: "round_double (of_nat s * pow10 (n - int k)) = Fin x"
    by simp_all
  from lo have s: "0 < s" by (metis less_le_trans zero_less_numeral zero_less_power)
  define ds where "ds = digits10 s"
  from digits10_props [of s] have dg: "list_all (is_digit 10) ds" and dv: "digits_val 10 ds = s"
    and "length ds = ndigits 8 s"
    by (simp_all add: ds_def)
  moreover have "ndigits 8 s = k" using lo hi s k(1) by (intro ndigits_unique_10) simp_all
  ultimately have len: "length ds = k" by simp
  from n assms(4,5) have nr: "1 \<le> n" "n \<le> 17" by auto
  have pq: "0 < of_nat s * pow10 (n - int k)"
    using s by (simp add: pow10_def)
  show ?thesis
  proof (cases "int k \<le> n")
    case True
    define z where "z = nat (n - int k)"
    have sp: "show_pos x = ds @ replicate z CHR ''0''"
      unfolding show_pos_def sd using True nr by (simp add: ds_def z_def Let_def)
    have "is_digit 10 CHR ''0''" by (simp add: is_digit_10)
    then have "list_all (is_digit 10) (replicate z CHR ''0'')"
      by (simp add: list_all_iff)
    with dg have all: "list_all (is_digit 10) (ds @ replicate z CHR ''0'')"
      by simp
    have ne: "ds @ replicate z CHR ''0'' \<noteq> []" using len k(1) by auto
    have "decimal_literal (show_pos x) = Some (of_nat (digits_val 10 (ds @ replicate z CHR ''0'')))"
      unfolding sp using all ne by (rule decimal_int_text)
    also have "of_nat (digits_val 10 (ds @ replicate z CHR ''0'')) = of_nat s * pow10 (n - int k)"
      using True by (simp add: digits_val_zeros dv pow10_def z_def)
    finally have "decimal_literal (show_pos x) = Some (of_nat s * pow10 (n - int k))" .
    moreover have "list_all dec_char (show_pos x)"
      unfolding sp using all by (simp add: list_all_iff dec_char_def)
    ultimately show ?thesis using rd pq by blast
  next
    case False
    then have nk: "nat n < k" "0 < nat n" using nr by simp_all
    have sp: "show_pos x = take (nat n) ds @ CHR ''.'' # drop (nat n) ds"
      unfolding show_pos_def sd using False nr by (simp add: ds_def Let_def)
    have d1: "list_all (is_digit 10) (take (nat n) ds)" "list_all (is_digit 10) (drop (nat n) ds)"
      using dg by (auto simp: list_all_iff dest: in_set_takeD in_set_dropD)
    have ne: "take (nat n) ds \<noteq> []" using nk len by auto
    have "decimal_literal (show_pos x) =
        Some (of_nat (digits_val 10 (take (nat n) ds @ drop (nat n) ds))
              * pow10 (- int (length (drop (nat n) ds))))"
      unfolding sp using d1(1) ne d1(2) by (rule decimal_frac_text)
    also have "- int (length (drop (nat n) ds)) = n - int k"
      using nk len nr by simp
    finally have "decimal_literal (show_pos x) = Some (of_nat s * pow10 (n - int k))"
      by (simp add: dv)
    moreover have "list_all dec_char (show_pos x)"
      unfolding sp using d1 by (auto simp: list_all_iff dec_char_def)
    ultimately show ?thesis using rd pq by blast
  qed
qed

lemma nat_survives:
  assumes "0 < N" "N < 2 ^ 53"
  shows "num_survives (Fin (of_nat N))" and "num_survives (Fin (- of_nat N))"
proof -
  define x :: rat where "x = of_nat N"
  define L where "L = ndigits 8 N"
  have x1: "1 \<le> x" using assms(1) by (simp add: x_def)
  then have il: "ilog10 x = int L" by (simp add: ilog10_def x_def L_def)
  from ndigits_bounds_10 [OF assms(1)] have lo: "10 ^ (L - 1) \<le> N" by (simp add: L_def)
  have L0: "0 < L" using assms(1) by (simp add: L_def ndigits_pos)
  have "(10::nat) ^ (L - 1) < 10 ^ 16"
  proof -
    have "N < (10::nat) ^ 16" using assms(2) by simp
    with lo show ?thesis by (rule le_less_trans)
  qed
  then have "L - 1 < 16" by (intro power_less_imp_less_exp [of 10]) simp_all
  with L0 have L: "1 \<le> L" "L \<le> 16" by simp_all
  from candidate_self [OF assms] have "digit_candidates x L (ilog10 x) \<noteq> []"
    unfolding il by (auto simp: x_def L_def)
  from show_pos_form [OF this] L il
  obtain q where t: "list_all dec_char (show_pos x)" and d: "decimal_literal (show_pos x) = Some q"
    and q: "0 < q" and r: "round_double q = Fin x"
    by auto
  have ne: "show_pos x \<noteq> []" using d by (auto simp: decimal_literal_def Let_def)
  from t have bc: "list_all bare_char (show_pos x)" by (simp add: list_all_iff dec_char_bare)
  have xp: "0 < x" using x1 by simp
  have "num_survives (Fin x)"
    using xp ne bc Number_js_decimal(1) [OF t d] r
    by (simp add: num_survives_def isFinite_def String_js_def bare_word_def)
  then show "num_survives (Fin (of_nat N))" by (simp add: x_def)
  from q r have rn: "round_double (- q) = Fin (- x)"
    by (auto simp: round_double_def Let_def split: if_splits)
  have "num_survives (Fin (- x))"
    using xp ne bc Number_js_decimal(2) [OF t d] rn
    by (simp add: num_survives_def isFinite_def String_js_def bare_word_def bare_char_def is_space_def)
  then show "num_survives (Fin (- of_nat N))" by (simp add: x_def)
qed

lemma safe_integers_survive:
  assumes "\<bar>n\<bar> < 2 ^ 53"
  shows "num_survives (Fin (of_int n))"
proof -
  consider "n = 0" | "0 < n" | "n < 0" by linarith
  then show ?thesis
  proof cases
    case 1
    have "num_survives (Fin 0)" by code_simp
    with 1 show ?thesis by simp
  next
    case 2
    with assms have "0 < nat n" "nat n < 2 ^ 53" by (simp_all add: nat_less_iff)
    from nat_survives(1) [OF this] 2 show ?thesis by simp
  next
    case 3
    with assms have "0 < nat (- n)" "nat (- n) < 2 ^ 53" by (simp_all add: nat_less_iff)
    from nat_survives(2) [OF this] 3 show ?thesis by simp
  qed
qed

lemma Number_js_digits:
  assumes "list_all (is_digit 10) ds" "0 < digits_val 10 ds" "digits_val 10 ds < 2 ^ 53"
  shows "Number_js ds = Fin (of_nat (digits_val 10 ds))"
proof -
  from assms(2) have ne: "ds \<noteq> []" by (auto simp: digits_val_def)
  from assms(1) have dc: "list_all dec_char ds" by (simp add: list_all_iff dec_char_def)
  from assms(1) ne have "decimal_literal ds = Some (of_nat (digits_val 10 ds))"
    by (rule decimal_int_text)
  from Number_js_decimal(1) [OF dc this] round_double_nat [OF assms(2,3)] show ?thesis
    by simp
qed

lemma parseValue_18: "parseValue ''18'' = VNum (Fin 18)"
proof -
  have d: "list_all (is_digit 10) ''18''" "digits_val 10 ''18'' = 18"
    by (simp_all add: is_digit_def digit_val_def digits_val_def)
  have "Number_js ''18'' = Fin (of_nat (digits_val 10 ''18''))"
    by (rule Number_js_digits [OF d(1)]) (simp_all add: d(2))
  then have n: "Number_js ''18'' = Fin 18" by (simp add: d)
  show ?thesis
    by (subst parseValue.simps) (simp add: n startsWith_def endsWith_def isNaN_def isFinite_def)
qed

subsection \<open>The round trip\<close>

text \<open>
  C1, as amended. Serializing and parsing gives back the descriptors, one for one and in
  order, for either logical operator, when every descriptor has a property that is one
  token and not a joiner, an operator that \<open>FilterOperator\<close> writes in lower case, and a
  scalar value that is \<open>null\<close>, a boolean, a finite number whose printed form reads back
  as the number, a string that is emitted bare and does not read as a joiner or as a
  literal of another type, or a string that is emitted in quotes and has no single quote
  and no joiner between spaces in it. Every integer of magnitude below \<open>2 ^ 53\<close> is
  such a number.
\<close>

theorem plain_filters_round_trip:
  "(list_all plain_filter D \<longrightarrow>
      parseFilterQueryParams (filter_query (buildFilterQueryParams D lop)) = D)
   \<and> (\<bar>n\<bar> < 2 ^ 53 \<longrightarrow> num_survives (Fin (of_int n)))"
proof (intro conjI impI)
  assume "\<bar>n\<bar> < 2 ^ 53"
  then show "num_survives (Fin (of_int n))" by (rule safe_integers_survive)
next
  assume pf: "list_all plain_filter D"
  show "parseFilterQueryParams (filter_query (buildFilterQueryParams D lop)) = D"
  proof (cases "D = []")
    case True
    then show ?thesis
      by (simp add: buildFilterQueryParams_def filter_query_def parseFilterQueryParams_def)
  next
    case False
    let ?es = "map filterToODataExpression D"
    let ?E = "join (CHR '' '' # logical_str lop @ '' '') ?es"
    have ws: "list_all well_separated ?es"
      using pf by (simp add: list_all_iff expression_well_separated)
    have ne: "?es \<noteq> []" using False by simp
    from join_nonempty [OF ne ws] have "?E \<noteq> []" by simp
    moreover have "buildFilterQueryParams D lop = [''filter'' \<mapsto> ?E]"
      using False by (simp add: buildFilterQueryParams_def)
    ultimately have "parseFilterQueryParams (filter_query (buildFilterQueryParams D lop))
        = concat (map parseODataExpression ?es)"
      by (simp add: filter_query_def parseFilterQueryParams_def split_parts_join [OF ne ws])
    also have "\<dots> = concat (map (\<lambda>f. [f]) D)"
      using pf by (simp add: list_all_iff parse_expression comp_def cong: map_cong)
    also have "\<dots> = D" by (induction D) simp_all
    finally show ?thesis .
  qed
qed

theorem plain_filters_round_trip_witness:
  "list_all plain_filter
     [\<lparr>prop_f = ''age'', operator = GT, value_f = VNum (Fin 18)\<rparr>,
      \<lparr>prop_f = ''email'', operator = EQ, value_f = VStr ''a@b.com''\<rparr>,
      \<lparr>prop_f = ''status'', operator = NE, value_f = VStr ''active''\<rparr>,
      \<lparr>prop_f = ''deletedAt'', operator = EQ, value_f = VNull\<rparr>]
   \<and> parseFilterQueryParams (filter_query (buildFilterQueryParams
       [\<lparr>prop_f = ''age'', operator = GT, value_f = VNum (Fin 18)\<rparr>,
        \<lparr>prop_f = ''email'', operator = EQ, value_f = VStr ''a@b.com''\<rparr>,
        \<lparr>prop_f = ''status'', operator = NE, value_f = VStr ''active''\<rparr>,
        \<lparr>prop_f = ''deletedAt'', operator = EQ, value_f = VNull\<rparr>] L_or))
     = [\<lparr>prop_f = ''age'', operator = GT, value_f = VNum (Fin 18)\<rparr>,
        \<lparr>prop_f = ''email'', operator = EQ, value_f = VStr ''a@b.com''\<rparr>,
        \<lparr>prop_f = ''status'', operator = NE, value_f = VStr ''active''\<rparr>,
        \<lparr>prop_f = ''deletedAt'', operator = EQ, value_f = VNull\<rparr>]
   \<and> \<bar>- 42 :: int\<bar> < 2 ^ 53 \<and> num_survives (Fin (of_int (- 42)))"
proof -
  let ?D = "[\<lparr>prop_f = ''age'', operator = GT, value_f = VNum (Fin 18)\<rparr>,
      \<lparr>prop_f = ''email'', operator = EQ, value_f = VStr ''a@b.com''\<rparr>,
      \<lparr>prop_f = ''status'', operator = NE, value_f = VStr ''active''\<rparr>,
      \<lparr>prop_f = ''deletedAt'', operator = EQ, value_f = VNull\<rparr>]"
  have h: "list_all plain_filter ?D"
  proof -
    have "num_survives (Fin (of_int 18))" by (rule safe_integers_survive) simp
    then have n: "plain_value (VNum (Fin 18))" by (simp add: plain_value_def)
    have s: "quotable_string ''a@b.com''" "bare_string ''active''"
      by code_simp+
    have w: "bare_word ''age''" "bare_word ''email''" "bare_word ''status''" "bare_word ''deletedAt''"
      "\<not> is_joiner ''age''" "\<not> is_joiner ''email''" "\<not> is_joiner ''status''"
      "\<not> is_joiner ''deletedAt''"
      by code_simp+
    show ?thesis
      using n s w
      by (simp add: plain_filter_def plain_value_def lower_operators_def FilterOperator_defs)
  qed

  have b: "\<bar>- 42 :: int\<bar> < 2 ^ 53" by simp
  from plain_filters_round_trip [of ?D L_or "- 42"] h b
  have "parseFilterQueryParams (filter_query (buildFilterQueryParams ?D L_or)) = ?D"
    and "num_survives (Fin (of_int (- 42)))"
    by blast+
  with h b show ?thesis by blast
qed

text \<open>
  C1 as stated fails: the string \<open>18\<close> has no quote and no space, it is serialized bare
  as \<open>age eq 18\<close>, and the value parser reads the token as the number 18.
\<close>

theorem round_trip_counterexample:
  "parseFilterQueryParams (filter_query (buildFilterQueryParams
       [\<lparr>prop_f = ''age'', operator = EQ, value_f = VStr ''18''\<rparr>] L_and))
     = [\<lparr>prop_f = ''age'', operator = EQ, value_f = VNum (Fin 18)\<rparr>]
   \<and> [\<lparr>prop_f = ''age'', operator = EQ, value_f = VNum (Fin 18)\<rparr>]
     \<noteq> [\<lparr>prop_f = ''age'', operator = EQ, value_f = VStr ''18''\<rparr>]"
proof -
  have b: "buildFilterQueryParams [\<lparr>prop_f = ''age'', operator = EQ, value_f = VStr ''18''\<rparr>] L_and
      = [''filter'' \<mapsto> ''age eq 18'']"
    by (simp add: buildFilterQueryParams_def filterToODataExpression_def formatFilterValue_def
        str_includes_def FilterOperator_defs)
  have parts: "split_parts ''age eq 18'' = [''age eq 18'']" by code_simp
  have t1: "tokenizeODataExpression ''age eq 18'' = [''age'', ''eq'', ''18'']" by code_simp
  have low: "toLowerCase ''age'' = ''age''" "toLowerCase ''eq'' = ''eq''" by code_simp+
  have e1: "parseODataExpression ''age eq 18'' = [\<lparr>prop_f = ''age'', operator = EQ, value_f = VNum (Fin 18)\<rparr>]"
    unfolding parseODataExpression_def t1
    by (simp add: parse_loop.simps(2) low push_filter_def parseValue_18 FilterOperator_values_def
        FilterOperator_defs)
  show ?thesis
    by (simp add: b filter_query_def parseFilterQueryParams_def parts e1)
qed

section \<open>The examples of the specification\<close>

text \<open>
  C10. Parsing \<open>age gt 18 and status eq active\<close> gives two descriptors in order: \<open>age gt\<close>
  with the number 18, then \<open>status eq\<close> with the string \<open>active\<close>; the joiner \<open>and\<close> is
  consumed and leaves nothing behind.
\<close>

theorem parse_two_filters:
  "parseFilterQueryParams [''filter'' \<mapsto> QStr ''age gt 18 and status eq active''] =
     [\<lparr>prop_f = ''age'', operator = GT, value_f = VNum (Fin 18)\<rparr>,
      \<lparr>prop_f = ''status'', operator = EQ, value_f = VStr ''active''\<rparr>]"
proof -
  have parts: "split_parts ''age gt 18 and status eq active'' = [''age gt 18'', ''AND'', ''status eq active'']"
    by code_simp
  have t1: "tokenizeODataExpression ''age gt 18'' = [''age'', ''gt'', ''18'']"
    and t2: "tokenizeODataExpression ''status eq active'' = [''status'', ''eq'', ''active'']"
    by code_simp+
  have v2: "parseValue ''active'' = VStr ''active''" by code_simp
  have low: "toLowerCase ''age'' = ''age''" "toLowerCase ''gt'' = ''gt''"
    "toLowerCase ''status'' = ''status''" "toLowerCase ''eq'' = ''eq''"
    by code_simp+
  have e1: "parseODataExpression ''age gt 18'' = [\<lparr>prop_f = ''age'', operator = GT, value_f = VNum (Fin 18)\<rparr>]"
    unfolding parseODataExpression_def t1
    by (simp add: parse_loop.simps(2) low push_filter_def parseValue_18 FilterOperator_values_def
        FilterOperator_defs)
  have e2: "parseODataExpression ''status eq active'' =
      [\<lparr>prop_f = ''status'', operator = EQ, value_f = VStr ''active''\<rparr>]"
    unfolding parseODataExpression_def t2
    by (simp add: parse_loop.simps(2) low push_filter_def v2 FilterOperator_values_def
        FilterOperator_defs)
  show ?thesis
    by (simp add: parseFilterQueryParams_def parts e1 e2)
qed

text \<open>
  C2. The claim is that \<open>deletedAt isNull\<close> parses to the one descriptor
  \<open>{deletedAt, isNull, null}\<close>. The parser reads a filter only where three tokens remain,
  and it lower-cases the operator token before looking it up: the two tokens are stepped
  over one by one and the result is empty.
\<close>

theorem parse_isNull_is_empty:
  "parseFilterQueryParams [''filter'' \<mapsto> QStr ''deletedAt isNull''] = []"
  by code_simp

text \<open>
  C3. The claim is that \<open>role in (admin, editor)\<close> parses to one descriptor whose value is
  the array of \<open>admin\<close> and \<open>editor\<close>. The tokenizer leaves the comma on \<open>admin,\<close>, the
  collected tokens are joined with another comma and the value parser splits on both:
  the array has an empty string between the two names.
\<close>

theorem parse_in_list_has_empty_element:
  "parseFilterQueryParams [''filter'' \<mapsto> QStr ''role in (admin, editor)''] =
     [\<lparr>prop_f = ''role'', operator = IN,
       value_f = VArr [VStr ''admin'', VStr [], VStr ''editor'']\<rparr>]"
  by code_simp

end
